theory Spec2Isabelle
  imports Main
begin

section \<open>JavaScript primitives used by the sources\<close>

text \<open>
  The sources are JavaScript. Numbers that the code only ever uses as counters or
  sizes are modelled as \<open>nat\<close> or \<open>int\<close> (all values stay far below \<open>2^53\<close>, where
  JavaScript's doubles are exact on integers); strings are \<open>string\<close>.
\<close>

text \<open>\<open>Number.prototype.toString()\<close> on a non-negative integer: its decimal digits.\<close>

definition digit_char :: "nat \<Rightarrow> char" where
  "digit_char d = ''0123456789'' ! d"

function toString :: "nat \<Rightarrow> string" where
  "toString n = (if n < 10 then [digit_char n] else toString (n div 10) @ [digit_char (n mod 10)])"
  by pat_completeness auto
termination
  by (relation "measure (\<lambda>n. n)") auto

declare toString.simps [simp del]

text \<open>
  \<open>String.prototype.padStart(targetLength, padString)\<close>: a string that is already
  long enough (or an empty pad string) is returned unchanged; otherwise the pad string
  is repeated, cut to the missing length and put in front. Nothing is ever cut from the
  string itself.
\<close>

definition padStart :: "nat \<Rightarrow> string \<Rightarrow> string \<Rightarrow> string" where
  "padStart targetLength padString s =
     (if targetLength \<le> length s \<or> padString = [] then s
      else take (targetLength - length s)
             (concat (replicate (targetLength - length s) padString)) @ s)"

text \<open>
  \<open>Array.prototype.slice(start, end)\<close> with integer arguments: a negative index
  counts from the end, both indices are clamped to the array, and an empty range
  gives the empty array.
\<close>

definition js_slice :: "'a list \<Rightarrow> int \<Rightarrow> int \<Rightarrow> 'a list" where
  "js_slice items start fin =
     (let len = int (length items);
          k = (if start < 0 then max (len + start) 0 else min start len);
          final = (if fin < 0 then max (len + fin) 0 else min fin len)
      in take (nat (final - k)) (drop (nat k) items))"

section \<open>Batch planner (src/lib/batchProcessor.js)\<close>

text \<open>
  \<open>generateSerialNumbers(count)\<close>: the loop \<open>for (let i = 0; i < count; i++)\<close> pushes
  \<open>`SN-${i.toString().padStart(3, '0')}`\<close>. A count of zero or less runs the body
  no time.
\<close>

definition serialNumber :: "nat \<Rightarrow> string" where
  "serialNumber i = ''SN-'' @ padStart 3 ''0'' (toString i)"

definition generateSerialNumbers :: "int \<Rightarrow> string list" where
  "generateSerialNumbers count = map serialNumber [0..<nat count]"

text \<open>
  \<open>createBatches(items, batchSize)\<close>: the loop
  \<open>for (let i = 0; i < items.length; i += batchSize) batches.push(items.slice(i, i + batchSize))\<close>.
  Nothing in the source bounds the number of iterations when \<open>batchSize \<le> 0\<close>, so the
  loop is a partial function: \<open>None\<close> is the run that never leaves the loop.
\<close>

partial_function (option) createBatches_loop ::
  "'a list \<Rightarrow> int \<Rightarrow> int \<Rightarrow> 'a list list \<Rightarrow> 'a list list option" where
  "createBatches_loop items batchSize i batches =
     (if i < int (length items)
      then createBatches_loop items batchSize (i + batchSize)
             (batches @ [js_slice items i (i + batchSize)])
      else Some batches)"

definition createBatches :: "'a list \<Rightarrow> int \<Rightarrow> 'a list list option" where
  "createBatches items batchSize = createBatches_loop items batchSize 0 []"

text \<open>
  \<open>prepareBatches(totalDevices, batchSize)\<close> returns the identifiers, the batches and
  three numbers. The fields \<open>totalDevices\<close>, \<open>batchSize\<close> and \<open>totalBatches\<close> of its result
  carry the prefix \<open>plan_\<close> here, because the summary of the report has fields of the
  same names.
\<close>

record plan =
  serialNumbers :: "string list"
  batches :: "string list list"
  plan_totalDevices :: int
  plan_batchSize :: int
  plan_totalBatches :: nat

definition prepareBatches :: "int \<Rightarrow> int \<Rightarrow> plan option" where
  "prepareBatches tdevices bsize =
     (let sns = generateSerialNumbers tdevices
      in case createBatches sns bsize of
           None \<Rightarrow> None
         | Some bs \<Rightarrow>
             Some \<lparr>serialNumbers = sns, batches = bs, plan_totalDevices = tdevices,
                   plan_batchSize = bsize, plan_totalBatches = length bs\<rparr>)"

section \<open>Configuration (src/config.js)\<close>

text \<open>
  The configuration module is a mutable object that every other module reads when it
  runs, so the model passes it as a parameter. Only the numeric settings matter to the
  pacing, batching and retry logic; \<open>default_config\<close> holds the values of the file.
\<close>

record config =
  RATE_LIMIT_MS :: int
  BATCH_SIZE :: int
  TOTAL_DEVICES :: int
  MAX_RETRIES :: nat
  INITIAL_RETRY_DELAY_MS :: nat

definition default_config :: config where
  "default_config = \<lparr>RATE_LIMIT_MS = 1100, BATCH_SIZE = 10, TOTAL_DEVICES = 500,
                       MAX_RETRIES = 3, INITIAL_RETRY_DELAY_MS = 1500\<rparr>"

section \<open>API client (lib/apiClient.js)\<close>

text \<open>
  A thrown JavaScript error is a value with a \<open>name\<close> and a \<open>message\<close>;
  \<open>new Error(msg)\<close> has the name \<open>Error\<close>.
\<close>

record js_error =
  name :: string
  message :: string

definition Error :: "string \<Rightarrow> js_error" where
  "Error msg = \<lparr>name = ''Error'', message = msg\<rparr>"

text \<open>
  Reading a property of \<open>null\<close> throws a TypeError; the message is the wording of V8,
  the engine of Node.js.
\<close>

definition null_property_error :: "string \<Rightarrow> js_error" where
  "null_property_error prop =
     \<lparr>name = ''TypeError'',
      message = ''Cannot read properties of null (reading '' @ [CHR 0x27] @ prop @ [CHR 0x27] @ '')''\<rparr>"

text \<open>\<open>String.prototype.includes(searchString)\<close>.\<close>

fun js_includes :: "string \<Rightarrow> string \<Rightarrow> bool" where
  "js_includes [] t = (t = [])"
| "js_includes (c # s) t = (take (length t) (c # s) = t \<or> js_includes s t)"

text \<open>
  What the remote endpoint sends back. A device record has the four fields of the wire
  contract. A JSON body is \<open>null\<close> or a value with an optional \<open>error\<close> string and an
  optional \<open>data\<close> array (a JSON number, string or array reads as a value with neither:
  both properties are \<open>undefined\<close> on it). \<open>response.json()\<close> either yields the parsed
  body or rejects with a SyntaxError when the body is not JSON.
\<close>

record device =
  sn :: string
  power :: string
  device_status :: string
  last_updated :: string

datatype json = JNull | JObject "string option" "device list option"

datatype body_json = NotJson string | Json json

record response =
  status :: nat
  body :: body_json

definition ok :: "response \<Rightarrow> bool" where
  "ok r = (200 \<le> status r \<and> status r \<le> 299)"

text \<open>
  \<open>await fetch(fullUrl, requestOptions)\<close> either rejects (a transport failure) or
  resolves with a response. The endpoint is the environment of the client: it answers
  the attempt with retry count \<open>k\<close> of a request carrying \<open>snList\<close>.
\<close>

datatype fetch_result = Rejects js_error | Resolves response

type_synonym endpoint = "string list \<Rightarrow> nat \<Rightarrow> fetch_result"

text \<open>
  The observable effects of one call of \<open>fetchDeviceData\<close>, in order: an outbound
  request (with the retry count it was made at) and a \<open>sleep(ms)\<close>.
\<close>

datatype effect = Attempt nat | Sleep nat

fun is_Attempt :: "effect \<Rightarrow> bool" where
  "is_Attempt (Attempt k) = True"
| "is_Attempt (Sleep ms) = False"

definition attempts :: "effect list \<Rightarrow> nat" where
  "attempts effects = length (filter is_Attempt effects)"

text \<open>
  How one pass through the body of \<open>fetchDeviceData\<close> ends: it sleeps and calls itself
  with \<open>retryCount + 1\<close>, it throws, or it returns the parsed body.
\<close>

datatype attempt_outcome = Retry | Throw js_error | Return json

text \<open>
  The \<open>try\<close> block. Status 429 retries while \<open>retryCount < MAX_RETRIES\<close> and throws
  otherwise; status 401 parses the body with no guard and throws
  \<open>Authentication failed: ${errorData.error}\<close>; any other status that is not ok
  parses the body with \<open>.catch(() => ({}))\<close> and throws
  \<open>API Error ${status}: ${errorData.error || 'Unknown error'}\<close>; an ok status
  returns the parsed body.
\<close>

definition template_literal :: "string option \<Rightarrow> string" where
  "template_literal v = (case v of None \<Rightarrow> ''undefined'' | Some s \<Rightarrow> s)"

definition or_default :: "string option \<Rightarrow> string \<Rightarrow> string" where
  "or_default v d = (case v of None \<Rightarrow> d | Some s \<Rightarrow> if s = [] then d else s)"

definition try_block :: "config \<Rightarrow> fetch_result \<Rightarrow> nat \<Rightarrow> attempt_outcome" where
  "try_block cfg res retryCount =
     (case res of
        Rejects e \<Rightarrow> Throw e
      | Resolves r \<Rightarrow>
          if status r = 429 then
            (if retryCount < MAX_RETRIES cfg then Retry
             else Throw (Error (''Rate limit exceeded after '' @ toString (MAX_RETRIES cfg)
                                  @ '' retries'')))
          else if status r = 401 then
            (case body r of
               NotJson m \<Rightarrow> Throw \<lparr>name = ''SyntaxError'', message = m\<rparr>
             | Json JNull \<Rightarrow> Throw (null_property_error ''error'')
             | Json (JObject err d) \<Rightarrow>
                 Throw (Error (''Authentication failed: '' @ template_literal err)))
          else if \<not> ok r then
            (case (case body r of NotJson m \<Rightarrow> JObject None None | Json v \<Rightarrow> v) of
               JNull \<Rightarrow> Throw (null_property_error ''error'')
             | JObject err d \<Rightarrow>
                 Throw (Error (''API Error '' @ toString (status r) @ '': ''
                                 @ or_default err ''Unknown error'')))
          else
            (case body r of
               NotJson m \<Rightarrow> Throw \<lparr>name = ''SyntaxError'', message = m\<rparr>
             | Json v \<Rightarrow> Return v))"

text \<open>
  The \<open>catch\<close> block: a TypeError whose message contains \<open>fetch\<close> is retried while
  \<open>retryCount < MAX_RETRIES\<close>; every other error, and that one once the retries are
  used up, is thrown again.
\<close>

definition catch_block :: "config \<Rightarrow> js_error \<Rightarrow> nat \<Rightarrow> attempt_outcome" where
  "catch_block cfg e retryCount =
     (if name e = ''TypeError'' \<and> js_includes (message e) ''fetch'' \<and> retryCount < MAX_RETRIES cfg
      then Retry else Throw e)"

definition attempt :: "config \<Rightarrow> fetch_result \<Rightarrow> nat \<Rightarrow> attempt_outcome" where
  "attempt cfg res retryCount =
     (case try_block cfg res retryCount of
        Throw e \<Rightarrow> catch_block cfg e retryCount
      | Retry \<Rightarrow> Retry
      | Return v \<Rightarrow> Return v)"

text \<open>
  \<open>fetchDeviceData(snList, retryCount)\<close>. Both retry sites wait
  \<open>INITIAL_RETRY_DELAY_MS * Math.pow(2, retryCount)\<close> and then
  \<open>return fetchDeviceData(snList, retryCount + 1)\<close> with no \<open>await\<close>, so what the
  inner call throws does not pass through this call's \<open>catch\<close>. The result is the
  list of effects together with the thrown error (\<open>Inl\<close>) or the returned body
  (\<open>Inr\<close>). The recursion ends because a retry needs \<open>retryCount < MAX_RETRIES\<close>.
\<close>

function fetchDeviceData ::
  "config \<Rightarrow> endpoint \<Rightarrow> string list \<Rightarrow> nat \<Rightarrow> effect list \<times> (js_error + json)" where
  "fetchDeviceData cfg server snList retryCount =
     (case attempt cfg (server snList retryCount) retryCount of
        Retry \<Rightarrow>
          (let delay = INITIAL_RETRY_DELAY_MS cfg * 2 ^ retryCount;
               (effects, result) = fetchDeviceData cfg server snList (retryCount + 1)
           in (Attempt retryCount # Sleep delay # effects, result))
      | Throw e \<Rightarrow> ([Attempt retryCount], Inl e)
      | Return v \<Rightarrow> ([Attempt retryCount], Inr v))"
  by pat_completeness auto
termination
proof (relation "measure (\<lambda>(cfg, server, snList, retryCount). MAX_RETRIES cfg - retryCount)")
  show "wf (measure (\<lambda>(cfg, server, snList, retryCount). MAX_RETRIES cfg - retryCount))"
    by simp
next
  fix cfg :: config and server :: endpoint and snList :: "string list" and retryCount delay :: nat
  assume "attempt cfg (server snList retryCount) retryCount = Retry"
  then have "retryCount < MAX_RETRIES cfg"
    by (auto simp: attempt_def try_block_def catch_block_def
             split: fetch_result.splits body_json.splits json.splits if_splits
                    attempt_outcome.splits)
  then show "((cfg, server, snList, retryCount + 1), cfg, server, snList, retryCount)
      \<in> measure (\<lambda>(cfg, server, snList, retryCount). MAX_RETRIES cfg - retryCount)"
    by simp
qed

declare fetchDeviceData.simps [simp del]

section \<open>Rate limiter (lib/rateLimiter.js)\<close>

text \<open>
  A queue entry \<open>{fn, resolve, reject}\<close>: the task and the promise that \<open>execute\<close>
  returned for it. The promise is identified by its number of creation, so the
  \<open>k\<close>-th call of \<open>execute\<close> on a limiter creates the promise \<open>k\<close> (from zero).
\<close>

record 'a item =
  ident :: nat
  task :: 'a

text \<open>A promise that has been settled; a pending promise has no settlement.\<close>

datatype 'r settlement = Resolved 'r | Rejected js_error

text \<open>
  Where the one run of \<open>processQueue\<close> is suspended: not running at all, inside
  \<open>await this.sleep(waitTime)\<close> for a dequeued entry (with the time the timer is due),
  or inside \<open>await fn()\<close>.
\<close>

datatype 'a worker = Idle | Sleeping "'a item" int | Running "'a item"

text \<open>
  The fields of the class (\<open>intervalMs\<close>, \<open>lastRequestTime\<close>, \<open>queue\<close>, \<open>processing\<close>)
  and, to observe a run, the state of the event loop around it: the suspended worker,
  the reading of \<open>Date.now()\<close>, the number of promises created, the executions begun
  so far with the time each began, and the promises settled so far.
\<close>

record ('a, 'r) limiter =
  intervalMs :: int
  lastRequestTime :: int
  queue :: "'a item list"
  processing :: bool
  worker :: "'a worker"
  clock :: int
  promises :: nat
  started :: "('a item \<times> int) list"
  settled :: "nat \<rightharpoonup> 'r settlement"

definition new_RateLimiter :: "int \<Rightarrow> int \<Rightarrow> ('a, 'r) limiter" where
  "new_RateLimiter interval t0 =
     \<lparr>intervalMs = interval, lastRequestTime = 0, queue = [], processing = False,
      worker = Idle, clock = t0, promises = 0, started = [], settled = Map.empty\<rparr>"

text \<open>
  \<open>this.lastRequestTime = Date.now(); const result = await fn();\<close> the execution
  begins at the current reading of the clock and the worker is suspended in the task.
\<close>

definition begin_task :: "'a item \<Rightarrow> ('a, 'r) limiter \<Rightarrow> ('a, 'r) limiter" where
  "begin_task it s =
     s\<lparr>lastRequestTime := clock s, started := started s @ [(it, clock s)],
       worker := Running it\<rparr>"

text \<open>
  The head of \<open>while (this.queue.length > 0)\<close>: with an empty queue the loop ends and
  \<open>processing\<close> is reset; otherwise the first entry is shifted off,
  \<open>waitTime = Math.max(0, intervalMs - (now - lastRequestTime))\<close> is computed, and
  the worker sleeps when \<open>waitTime > 0\<close> or begins the task at once.
\<close>

definition loop_head :: "('a, 'r) limiter \<Rightarrow> ('a, 'r) limiter" where
  "loop_head s =
     (case queue s of
        [] \<Rightarrow> s\<lparr>processing := False, worker := Idle\<rparr>
      | it # rest \<Rightarrow>
          (let s' = s\<lparr>queue := rest\<rparr>;
               now = clock s;
               elapsed = now - lastRequestTime s;
               waitTime = max 0 (intervalMs s - elapsed)
           in if waitTime > 0 then s'\<lparr>worker := Sleeping it (now + waitTime)\<rparr>
              else begin_task it s'))"

definition processQueue :: "('a, 'r) limiter \<Rightarrow> ('a, 'r) limiter" where
  "processQueue s =
     (if processing s \<or> queue s = [] then s else loop_head (s\<lparr>processing := True\<rparr>))"

definition execute :: "'a \<Rightarrow> ('a, 'r) limiter \<Rightarrow> ('a, 'r) limiter" where
  "execute f s =
     processQueue (s\<lparr>queue := queue s @ [\<lparr>ident = promises s, task = f\<rparr>],
                     promises := Suc (promises s)\<rparr>)"

definition clear :: "('a, 'r) limiter \<Rightarrow> ('a, 'r) limiter" where
  "clear s = s\<lparr>queue := []\<rparr>"

definition getQueueLength :: "('a, 'r) limiter \<Rightarrow> nat" where
  "getQueueLength s = length (queue s)"

text \<open>
  What can happen to a limiter: a caller submits a task, a caller clears the queue,
  time passes, the timer of the sleeping worker fires, the task the worker awaits
  settles (it throws, \<open>Inl\<close>, or returns, \<open>Inr\<close>). \<open>Tick d\<close> changes the reading of
  \<open>Date.now()\<close> by \<open>d\<close> milliseconds; the wall clock can be set back, so \<open>d\<close> is an
  integer. When the timer fires, the code after \<open>await this.sleep(waitTime)\<close> goes on
  to the task at once, whatever \<open>Date.now()\<close> reads then: it does not compare the
  clock with the time the timer was set for, and the timers of the runtime run on a
  clock of their own, so the timer can fire while \<open>Date.now()\<close> is still short of that
  time. An event that cannot happen in the current state (a timer firing with no
  sleeping worker, a task settling with none running) leaves it unchanged. Code that
  runs without awaiting takes no time.
\<close>

datatype ('a, 'r) event =
  Execute 'a | Clear | Tick int | TimerFires | TaskSettles "js_error + 'r"

definition settle :: "js_error + 'r \<Rightarrow> 'r settlement" where
  "settle out = (case out of Inl e \<Rightarrow> Rejected e | Inr v \<Rightarrow> Resolved v)"

fun step :: "('a, 'r) event \<Rightarrow> ('a, 'r) limiter \<Rightarrow> ('a, 'r) limiter" where
  "step (Execute f) s = execute f s"
| "step Clear s = clear s"
| "step (Tick d) s = s\<lparr>clock := clock s + d\<rparr>"
| "step TimerFires s =
     (case worker s of
        Sleeping it due \<Rightarrow> begin_task it s
      | _ \<Rightarrow> s)"
| "step (TaskSettles out) s =
     (case worker s of
        Running it \<Rightarrow> loop_head (s\<lparr>settled := (settled s)(ident it \<mapsto> settle out)\<rparr>)
      | _ \<Rightarrow> s)"

definition run :: "('a, 'r) event list \<Rightarrow> ('a, 'r) limiter \<Rightarrow> ('a, 'r) limiter" where
  "run evs s = foldl (\<lambda>s e. step e s) s evs"

section \<open>Aggregator (services/aggregator.js)\<close>

text \<open>
  A \<open>BatchError\<close> as the \<open>catch\<close> pushes it, a progress event as \<open>onProgress\<close>
  receives it, and the report. The fields that hold wall-clock readings or formatted
  floating-point numbers (\<open>progress\<close>, \<open>durationSeconds\<close>, \<open>averageRequestTime\<close>,
  \<open>timestamp\<close>) are left out.
\<close>

record batch_error =
  batch :: nat
  batchSerialNumbers :: "string list"
  error :: string

record progress_event =
  batchIndex :: nat
  eventTotalBatches :: nat
  batchResults :: "device list"
  eventSuccessCount :: int
  eventOnlineCount :: int
  eventOfflineCount :: int

record summary =
  totalDevices :: int
  successfulFetches :: int
  failedFetches :: int
  onlineDevices :: int
  offlineDevices :: int
  totalBatches :: nat
  errorsCount :: nat

record report =
  summary :: summary
  devices :: "device list"
  errors :: "batch_error list option"

text \<open>The variables of the loop, and the calls of \<open>onProgress\<close> made so far.\<close>

record aggregation =
  allResults :: "device list"
  errs :: "batch_error list"
  successCount :: int
  onlineCount :: int
  offlineCount :: int
  progress :: "progress_event list"

text \<open>
  One pass through the loop body for the batch with index \<open>i\<close>. The awaited
  \<open>rateLimiter.execute(\<dots>)\<close> hands over what the task \<open>fetchDeviceData(batch)\<close> returned
  or threw (the limiter calls \<open>resolve(result)\<close> or \<open>reject(error)\<close>; nothing clears
  the queue during a run). A thrown error is recorded as a \<open>BatchError\<close>; so is the
  TypeError of reading \<open>response.data\<close> on \<open>null\<close>. A response without a \<open>data\<close>
  array passes the \<open>if\<close> by and changes nothing. A response with one is appended,
  counted, and reported to the observer.
\<close>

definition process_batch ::
  "config \<Rightarrow> (nat \<Rightarrow> endpoint) \<Rightarrow> nat \<Rightarrow> nat \<Rightarrow> string list \<Rightarrow> aggregation \<Rightarrow> aggregation" where
  "process_batch cfg net nbatches i b st =
     (case snd (fetchDeviceData cfg (net i) b 0) of
        Inl e \<Rightarrow>
          st\<lparr>errs := errs st @ [\<lparr>batch = i + 1, batchSerialNumbers = b, error = message e\<rparr>]\<rparr>
      | Inr JNull \<Rightarrow>
          st\<lparr>errs := errs st @ [\<lparr>batch = i + 1, batchSerialNumbers = b,
                                   error = message (null_property_error ''data'')\<rparr>]\<rparr>
      | Inr (JObject err None) \<Rightarrow> st
      | Inr (JObject err (Some d)) \<Rightarrow>
          (let success = successCount st + int (length d);
               online = onlineCount st
                          + int (length (filter (\<lambda>dev. device_status dev = ''Online'') d));
               offline = offlineCount st
                          + int (length (filter (\<lambda>dev. device_status dev \<noteq> ''Online'') d))
           in st\<lparr>allResults := allResults st @ d, successCount := success,
                 onlineCount := online, offlineCount := offline,
                 progress := progress st @
                   [\<lparr>batchIndex = i, eventTotalBatches = nbatches, batchResults = d,
                     eventSuccessCount = success, eventOnlineCount = online,
                     eventOfflineCount = offline\<rparr>]\<rparr>))"

text \<open>The loop \<open>for (let i = 0; i < batches.length; i++)\<close>, from index \<open>i\<close> on.\<close>

fun run_batches ::
  "config \<Rightarrow> (nat \<Rightarrow> endpoint) \<Rightarrow> nat \<Rightarrow> nat \<Rightarrow> string list list \<Rightarrow> aggregation \<Rightarrow> aggregation" where
  "run_batches cfg net nbatches i [] st = st"
| "run_batches cfg net nbatches i (b # bs) st =
     run_batches cfg net nbatches (Suc i) bs (process_batch cfg net nbatches i b st)"

text \<open>
  \<open>aggregateDeviceData(onProgress)\<close>: the plan comes from \<open>prepareBatches()\<close> with the
  configured device count and batch size; the result is the report and the progress
  events in the order of delivery. \<open>net i\<close> is the endpoint as it behaves while batch
  \<open>i\<close> is fetched. No plan, no report: \<open>None\<close> is the run whose planning never returns.
\<close>

definition aggregateDeviceData ::
  "config \<Rightarrow> (nat \<Rightarrow> endpoint) \<Rightarrow> (report \<times> progress_event list) option" where
  "aggregateDeviceData cfg net =
     (case prepareBatches (TOTAL_DEVICES cfg) (BATCH_SIZE cfg) of
        None \<Rightarrow> None
      | Some p \<Rightarrow>
          (let st = run_batches cfg net (plan_totalBatches p) 0 (batches p)
                      \<lparr>allResults = [], errs = [], successCount = 0, onlineCount = 0,
                       offlineCount = 0, progress = []\<rparr>
           in Some (\<lparr>summary =
                       \<lparr>totalDevices = plan_totalDevices p,
                        successfulFetches = successCount st,
                        failedFetches = plan_totalDevices p - successCount st,
                        onlineDevices = onlineCount st,
                        offlineDevices = offlineCount st,
                        totalBatches = plan_totalBatches p,
                        errorsCount = length (errs st)\<rparr>,
                      devices = allResults st,
                      errors = (if length (errs st) > 0 then Some (errs st) else None)\<rparr>,
                    progress st)))"

section \<open>Verification: the batch planner\<close>

subsection \<open>Auxiliary notions used in the proofs\<close>

text \<open>
  \<open>chunks n xs\<close> cuts a list into windows of \<open>n\<close> elements from the left. It is the
  closed form of what the loop of \<open>createBatches\<close> computes for a positive batch size.
\<close>

function chunks :: "nat \<Rightarrow> 'a list \<Rightarrow> 'a list list" where
  "chunks n xs = (if n = 0 \<or> xs = [] then [] else take n xs # chunks n (drop n xs))"
  by pat_completeness auto
termination
  by (relation "measure (\<lambda>(n, xs). length xs)") auto

declare chunks.simps [simp del]

text \<open>Reading a decimal numeral back, to show that no two indices share an identifier.\<close>

definition digit_val :: "char \<Rightarrow> nat" where
  "digit_val c = of_char c - 48"

definition decimal_value :: "string \<Rightarrow> nat" where
  "decimal_value s = foldl (\<lambda>a c. 10 * a + digit_val c) 0 s"

subsection \<open>Decimal strings and padding\<close>

lemma toString_nonempty: "toString n \<noteq> []"
  by (subst toString.simps) simp

lemma digit_val_digit_char: "d < 10 \<Longrightarrow> digit_val (digit_char d) = d"
proof -
  assume "d < 10"
  then have "d \<in> {0, 1, 2, 3, 4, 5, 6, 7, 8, 9}" by auto
  then show ?thesis by (auto simp: digit_val_def digit_char_def)
qed

lemma decimal_value_snoc: "decimal_value (s @ [c]) = 10 * decimal_value s + digit_val c"
  by (simp add: decimal_value_def)

lemma decimal_value_toString: "decimal_value (toString n) = n"
proof (induction n rule: toString.induct)
  case (1 n)
  show ?case
  proof (cases "n < 10")
    case True
    then show ?thesis
      by (subst toString.simps) (simp add: decimal_value_def digit_val_digit_char)
  next
    case False
    then have "toString n = toString (n div 10) @ [digit_char (n mod 10)]"
      by (subst toString.simps) simp
    then show ?thesis
      using "1.IH" [OF False] by (simp add: decimal_value_snoc digit_val_digit_char)
  qed
qed

lemma decimal_value_zeros: "decimal_value (replicate k CHR ''0'' @ s) = decimal_value s"
proof -
  have "foldl (\<lambda>a c. 10 * a + digit_val c) 0 (replicate k CHR ''0'') = 0"
    by (induction k) (simp_all add: digit_val_def)
  then show ?thesis by (simp add: decimal_value_def)
qed

lemma padStart_zero: "padStart k ''0'' s = replicate (k - length s) CHR ''0'' @ s"
proof -
  have "concat (replicate m ''0'') = replicate m CHR ''0''" for m
    by (induction m) simp_all
  then show ?thesis by (simp add: padStart_def)
qed

lemma serialNumber_index: "decimal_value (drop 3 (serialNumber i)) = i"
  by (simp add: serialNumber_def padStart_zero decimal_value_zeros decimal_value_toString)

lemma inj_serialNumber: "inj serialNumber"
  by (rule inj_on_inverseI [where g = "\<lambda>s. decimal_value (drop 3 s)"]) (rule serialNumber_index)

lemma distinct_generateSerialNumbers: "distinct (generateSerialNumbers c)"
  unfolding generateSerialNumbers_def
  by (simp add: distinct_map inj_on_subset [OF inj_serialNumber])

lemma length_toString_le: "0 < k \<Longrightarrow> length (toString n) \<le> k \<longleftrightarrow> n < 10 ^ k"
proof (induction n arbitrary: k rule: toString.induct)
  case (1 n)
  show ?case
  proof (cases "n < 10")
    case True
    have "(10::nat) ^ 1 \<le> 10 ^ k" using "1.prems" by (intro power_increasing) simp_all
    with True have "n < 10 ^ k" by simp
    moreover have "length (toString n) = 1" using True by (subst toString.simps) simp
    ultimately show ?thesis using "1.prems" by simp
  next
    case False
    then have len: "length (toString n) = Suc (length (toString (n div 10)))"
      by (subst toString.simps) simp
    show ?thesis
    proof (cases k)
      case 0
      with "1.prems" show ?thesis by simp
    next
      case (Suc j)
      show ?thesis
      proof (cases "j = 0")
        case True
        have "toString (n div 10) \<noteq> []" by (rule toString_nonempty)
        then have "0 < length (toString (n div 10))" by simp
        with True Suc len False show ?thesis by simp
      next
        case jpos: False
        then have "length (toString (n div 10)) \<le> j \<longleftrightarrow> n div 10 < 10 ^ j"
          using "1.IH" [OF False, of j] by simp
        moreover have "n div 10 < 10 ^ j \<longleftrightarrow> n < 10 ^ Suc j"
          by (simp add: less_mult_imp_div_less div_less_iff_less_mult mult.commute)
        ultimately show ?thesis using Suc len by simp
      qed
    qed
  qed
qed

lemma length_serialNumber: "length (serialNumber i) = 3 + max 3 (length (toString i))"
  by (simp add: serialNumber_def padStart_zero max_def)

lemma length_serialNumber_6: "length (serialNumber i) = 6 \<longleftrightarrow> i < 1000"
  using length_toString_le [of 3 i] by (auto simp: length_serialNumber max_def)

subsection \<open>The windowing loop\<close>

lemma js_slice_window:
  "0 \<le> i \<Longrightarrow> 0 \<le> b \<Longrightarrow> js_slice items i (i + b) = take (nat b) (drop (nat i) items)"
  by (auto simp: js_slice_def Let_def min_def max_def take_all_iff)

lemma createBatches_loop_chunks:
  assumes "1 \<le> b" "0 \<le> i"
  shows "createBatches_loop items b i acc = Some (acc @ chunks (nat b) (drop (nat i) items))"
  using assms(2)
proof (induction "length items - nat i" arbitrary: i acc rule: less_induct)
  case less
  show ?case
  proof (cases "i < int (length items)")
    case True
    have lt: "length items - nat (i + b) < length items - nat i"
      using True less.prems assms(1) by linarith
    have nonneg: "0 \<le> i + b" using less.prems assms(1) by simp
    have ne: "drop (nat i) items \<noteq> []" using True less.prems by simp
    have dd: "drop (nat b) (drop (nat i) items) = drop (nat (i + b)) items"
      using less.prems assms(1) by (simp add: nat_add_distrib add.commute)
    have "createBatches_loop items b i acc =
          createBatches_loop items b (i + b) (acc @ [js_slice items i (i + b)])"
      using True by (subst createBatches_loop.simps) simp
    also have "\<dots> = Some ((acc @ [js_slice items i (i + b)]) @ chunks (nat b) (drop (nat (i + b)) items))"
      by (rule less.hyps [OF lt nonneg])
    also have "\<dots> = Some (acc @ take (nat b) (drop (nat i) items) #
                       chunks (nat b) (drop (nat b) (drop (nat i) items)))"
      using assms(1) less.prems by (simp only: js_slice_window dd) simp
    also have "take (nat b) (drop (nat i) items) # chunks (nat b) (drop (nat b) (drop (nat i) items))
               = chunks (nat b) (drop (nat i) items)"
      using ne assms(1) by (subst (2) chunks.simps) simp
    finally show ?thesis .
  next
    case False
    then have "drop (nat i) items = []" using less.prems by simp
    then show ?thesis using False
      by (subst createBatches_loop.simps) (simp add: chunks.simps)
  qed
qed

lemma createBatches_chunks:
  "1 \<le> b \<Longrightarrow> createBatches items b = Some (chunks (nat b) items)"
  using createBatches_loop_chunks [of b 0 items "[]"] by (simp add: createBatches_def)

lemma concat_chunks: "0 < n \<Longrightarrow> concat (chunks n xs) = xs"
proof (induction n xs rule: chunks.induct)
  case (1 n xs)
  then show ?case by (subst chunks.simps) auto
qed

lemma chunks_length_le: "b \<in> set (chunks n xs) \<Longrightarrow> length b \<le> n \<and> b \<noteq> []"
proof (induction n xs rule: chunks.induct)
  case (1 n xs)
  show ?case
  proof (cases "n = 0 \<or> xs = []")
    case True
    with "1.prems" show ?thesis by (simp add: chunks.simps)
  next
    case False
    then have "chunks n xs = take n xs # chunks n (drop n xs)"
      by (subst chunks.simps) simp
    with "1.prems" have "b = take n xs \<or> b \<in> set (chunks n (drop n xs))" by simp
    then show ?thesis using False "1.IH" [OF False] by auto
  qed
qed

lemma chunks_butlast_full: "b \<in> set (butlast (chunks n xs)) \<Longrightarrow> length b = n"
proof (induction n xs rule: chunks.induct)
  case (1 n xs)
  show ?case
  proof (cases "n = 0 \<or> xs = []")
    case True
    with "1.prems" show ?thesis by (simp add: chunks.simps)
  next
    case False
    then have unf: "chunks n xs = take n xs # chunks n (drop n xs)"
      by (subst chunks.simps) simp
    show ?thesis
    proof (cases "chunks n (drop n xs) = []")
      case True
      with "1.prems" unf show ?thesis by simp
    next
      case ne: False
      then have "drop n xs \<noteq> []" by (auto simp: chunks.simps)
      then have full: "length (take n xs) = n" by simp
      from "1.prems" unf ne have "b = take n xs \<or> b \<in> set (butlast (chunks n (drop n xs)))"
        by simp
      then show ?thesis using full "1.IH" [OF False] by blast
    qed
  qed
qed

text \<open>
  With a batch size of zero or less the loop index never passes the length of a
  non-empty array, so no run of the loop returns.
\<close>

lemma createBatches_loop_diverges:
  assumes "createBatches_loop items b i acc = Some r"
  shows "\<not> (b \<le> 0 \<and> i < int (length items))"
proof (rule createBatches_loop.raw_induct
    [where P = "\<lambda>items b i acc r. \<not> (b \<le> 0 \<and> i < int (length items))", OF _ assms])
  fix f :: "'a list \<Rightarrow> int \<Rightarrow> int \<Rightarrow> 'a list list \<Rightarrow> 'a list list option"
    and items b i acc r
  assume IH: "\<And>items b i acc r. f items b i acc = Some r \<Longrightarrow> \<not> (b \<le> 0 \<and> i < int (length items))"
    and unf: "(if i < int (length items)
               then f items b (i + b) (acc @ [js_slice items i (i + b)])
               else Some acc) = Some r"
  show "\<not> (b \<le> 0 \<and> i < int (length items))"
  proof
    assume h: "b \<le> 0 \<and> i < int (length items)"
    with unf have "f items b (i + b) (acc @ [js_slice items i (i + b)]) = Some r" by simp
    from IH [OF this] h show False by simp
  qed
qed

lemma createBatches_diverges: "b \<le> 0 \<Longrightarrow> items \<noteq> [] \<Longrightarrow> createBatches items b = None"
proof (rule ccontr)
  assume b: "b \<le> 0" and ne: "items \<noteq> []" and "createBatches items b \<noteq> None"
  then obtain r where "createBatches_loop items b 0 [] = Some r"
    by (auto simp: createBatches_def)
  from createBatches_loop_diverges [OF this] b ne show False by simp
qed

lemma createBatches_empty: "createBatches [] b = Some []"
  by (simp add: createBatches_def createBatches_loop.simps)

subsection \<open>Claims about the planner\<close>

text \<open>
  Claim C3. For every device count \<open>tdevices \<ge> 0\<close> and batch size \<open>bsize \<ge> 1\<close>,
  \<open>prepareBatches\<close> returns a plan whose batches partition the generated identifiers:
  the identifiers are those of the indices \<open>0, \<dots>, tdevices - 1\<close> in ascending order,
  the batches put end to end are exactly that sequence, no identifier occurs twice,
  the batch lengths add up to \<open>tdevices\<close>, no batch is longer than \<open>bsize\<close>, and every
  batch but possibly the last has exactly \<open>bsize\<close> elements.
\<close>

theorem prepareBatches_partition:
  assumes "0 \<le> tdevices" and "1 \<le> bsize"
  shows "\<exists>p. prepareBatches tdevices bsize = Some p
           \<and> serialNumbers p = map serialNumber [0..<nat tdevices]
           \<and> concat (batches p) = serialNumbers p
           \<and> distinct (concat (batches p))
           \<and> int (sum_list (map length (batches p))) = tdevices
           \<and> (\<forall>b \<in> set (batches p). int (length b) \<le> bsize)
           \<and> (\<forall>b \<in> set (butlast (batches p)). int (length b) = bsize)
           \<and> plan_totalBatches p = length (batches p)"
proof -
  let ?sns = "generateSerialNumbers tdevices"
  let ?bs = "chunks (nat bsize) ?sns"
  let ?p = "\<lparr>serialNumbers = ?sns, batches = ?bs, plan_totalDevices = tdevices,
              plan_batchSize = bsize, plan_totalBatches = length ?bs\<rparr>"
  have pos: "0 < nat bsize" using assms(2) by simp
  have run: "prepareBatches tdevices bsize = Some ?p"
    using createBatches_chunks [OF assms(2), of ?sns] by (simp add: prepareBatches_def Let_def)
  have cc: "concat ?bs = ?sns" by (rule concat_chunks [OF pos])
  have "sum_list (map length ?bs) = length (concat ?bs)" by (simp add: length_concat)
  also have "\<dots> = nat tdevices" by (simp only: cc) (simp add: generateSerialNumbers_def)
  finally have total_len: "int (sum_list (map length ?bs)) = tdevices" using assms(1) by simp
  have le: "\<forall>b \<in> set ?bs. int (length b) \<le> bsize"
    using chunks_length_le [of _ "nat bsize" ?sns] assms(2) by fastforce
  have full: "\<forall>b \<in> set (butlast ?bs). int (length b) = bsize"
    using chunks_butlast_full [of _ "nat bsize" ?sns] assms(2) by fastforce
  have dist: "distinct (concat ?bs)"
    by (simp only: cc distinct_generateSerialNumbers)
  show ?thesis
    using run cc total_len le full dist by (simp add: generateSerialNumbers_def)
qed

theorem prepareBatches_partition_witness:
  "\<exists>p. prepareBatches 5 2 = Some p
      \<and> batches p = [[''SN-000'', ''SN-001''], [''SN-002'', ''SN-003''], [''SN-004'']]
      \<and> concat (batches p) = serialNumbers p
      \<and> distinct (concat (batches p))
      \<and> int (sum_list (map length (batches p))) = 5"
proof -
  have ev: "prepareBatches 5 2 = Some \<lparr>serialNumbers =
      [''SN-000'', ''SN-001'', ''SN-002'', ''SN-003'', ''SN-004''],
      batches = [[''SN-000'', ''SN-001''], [''SN-002'', ''SN-003''], [''SN-004'']],
      plan_totalDevices = 5, plan_batchSize = 2, plan_totalBatches = 3\<rparr>"
  proof -
    have sns: "generateSerialNumbers 5 =
        [''SN-000'', ''SN-001'', ''SN-002'', ''SN-003'', ''SN-004'']"
      by code_simp
    show ?thesis
      unfolding prepareBatches_def sns createBatches_def
      by (simp add: createBatches_loop.simps js_slice_def)
  qed
  have "0 \<le> (5::int)" and "1 \<le> (2::int)" by simp_all
  from prepareBatches_partition [OF this] obtain p where
    p: "prepareBatches 5 2 = Some p" "concat (batches p) = serialNumbers p"
       "distinct (concat (batches p))" "int (sum_list (map length (batches p))) = 5"
    by blast
  from p(1) ev have "batches p = [[''SN-000'', ''SN-001''], [''SN-002'', ''SN-003''], [''SN-004'']]"
    by auto
  with p show ?thesis by blast
qed

text \<open>
  Claim C4 (as the code has it). The planner validates nothing and raises no
  InvalidConfiguration error. For a batch size of zero or less it returns the plan
  with no batches when there is no device to plan (\<open>tdevices \<le> 0\<close>), and it never
  returns when there is at least one device: the windowing loop does not terminate.
\<close>

theorem prepareBatches_nonpositive_batchSize:
  assumes "bsize \<le> 0"
  shows "prepareBatches tdevices bsize =
           (if tdevices \<le> 0
            then Some \<lparr>serialNumbers = [], batches = [], plan_totalDevices = tdevices,
                       plan_batchSize = bsize, plan_totalBatches = 0\<rparr>
            else None)"
proof (cases "tdevices \<le> 0")
  case True
  then show ?thesis
    by (simp add: prepareBatches_def generateSerialNumbers_def createBatches_empty)
next
  case False
  then have "generateSerialNumbers tdevices \<noteq> []"
    by (simp add: generateSerialNumbers_def)
  from createBatches_diverges [OF assms this] False show ?thesis
    by (simp add: prepareBatches_def)
qed

theorem prepareBatches_nonpositive_batchSize_witness:
  "prepareBatches 3 (- 2) = None
   \<and> prepareBatches 0 (- 2) = Some \<lparr>serialNumbers = [], batches = [], plan_totalDevices = 0,
                                     plan_batchSize = - 2, plan_totalBatches = 0\<rparr>"
  using prepareBatches_nonpositive_batchSize [of "- 2" 3]
        prepareBatches_nonpositive_batchSize [of "- 2" 0]
  by simp

text \<open>
  The claim as the specification states it fails: with no device and batch size zero
  the planner returns normally, and with one device and batch size zero it loops
  forever, which is what the specification rules out.
\<close>

theorem prepareBatches_no_InvalidConfiguration:
  "prepareBatches 0 0 = Some \<lparr>serialNumbers = [], batches = [], plan_totalDevices = 0,
                               plan_batchSize = 0, plan_totalBatches = 0\<rparr>
   \<and> prepareBatches 1 0 = None"
proof
  show "prepareBatches 0 0 = Some \<lparr>serialNumbers = [], batches = [], plan_totalDevices = 0,
                               plan_batchSize = 0, plan_totalBatches = 0\<rparr>"
    by (simp add: prepareBatches_def generateSerialNumbers_def createBatches_empty)
  have "generateSerialNumbers 1 \<noteq> []" by (simp add: generateSerialNumbers_def)
  then have "createBatches (generateSerialNumbers 1) 0 = None"
    by (intro createBatches_diverges) simp_all
  then show "prepareBatches 1 0 = None" by (simp add: prepareBatches_def)
qed

text \<open>
  Claim C5 (as the code has it). The pad width is the constant 3, whatever the device
  count: the identifier of index \<open>i\<close> is \<open>SN-\<close> followed by the decimal digits of \<open>i\<close>,
  left-padded with zeros to at least three characters. No digit of an index is ever
  cut off (the index can be read back from the identifier), and the identifiers of a
  fleet all have the same width, six characters, exactly when the fleet has at most
  1000 devices.
\<close>

theorem generateSerialNumbers_pad_width_3:
  "(\<forall>i < nat n.
      generateSerialNumbers n ! i = ''SN-'' @ replicate (3 - length (toString i)) CHR ''0'' @ toString i
      \<and> decimal_value (drop 3 (generateSerialNumbers n ! i)) = i
      \<and> length (generateSerialNumbers n ! i) = 3 + max 3 (length (toString i)))
   \<and> ((\<forall>s \<in> set (generateSerialNumbers n). length s = 6) \<longleftrightarrow> n \<le> 1000)"
proof
  show "\<forall>i < nat n.
      generateSerialNumbers n ! i = ''SN-'' @ replicate (3 - length (toString i)) CHR ''0'' @ toString i
      \<and> decimal_value (drop 3 (generateSerialNumbers n ! i)) = i
      \<and> length (generateSerialNumbers n ! i) = 3 + max 3 (length (toString i))"
  proof (intro allI impI)
    fix i assume "i < nat n"
    then have nth: "generateSerialNumbers n ! i = serialNumber i"
      by (simp add: generateSerialNumbers_def)
    show "generateSerialNumbers n ! i = ''SN-'' @ replicate (3 - length (toString i)) CHR ''0'' @ toString i
      \<and> decimal_value (drop 3 (generateSerialNumbers n ! i)) = i
      \<and> length (generateSerialNumbers n ! i) = 3 + max 3 (length (toString i))"
      unfolding nth
      using serialNumber_index [of i] length_serialNumber [of i]
      by (simp add: serialNumber_def padStart_zero)
  qed
  have "(\<forall>s \<in> set (generateSerialNumbers n). length s = 6) \<longleftrightarrow> (\<forall>i < nat n. i < 1000)"
    by (auto simp: generateSerialNumbers_def length_serialNumber_6)
  also have "\<dots> \<longleftrightarrow> n \<le> 1000"
  proof
    assume h: "\<forall>i < nat n. i < 1000"
    show "n \<le> 1000"
    proof (rule ccontr)
      assume "\<not> n \<le> 1000"
      then have "(1000::nat) < nat n" by simp
      with h have "(1000::nat) < 1000" by blast
      then show False by simp
    qed
  next
    assume "n \<le> 1000"
    then show "\<forall>i < nat n. i < 1000" by auto
  qed
  finally show "(\<forall>s \<in> set (generateSerialNumbers n). length s = 6) \<longleftrightarrow> n \<le> 1000" .
qed

theorem generateSerialNumbers_pad_width_3_witness:
  "generateSerialNumbers 1001 ! 7 = ''SN-007''
   \<and> decimal_value (drop 3 (generateSerialNumbers 1001 ! 7)) = 7
   \<and> length (generateSerialNumbers 1001 ! 7) = 6
   \<and> \<not> (\<forall>s \<in> set (generateSerialNumbers 1001). length s = 6)"
proof -
  have t7: "toString 7 = ''7''" by code_simp
  have r: "replicate 2 CHR ''0'' = ''00''" by code_simp
  have lt: "(7::nat) < nat 1001" by simp
  from generateSerialNumbers_pad_width_3 [of 1001]
  have a: "\<forall>i < nat 1001.
      generateSerialNumbers 1001 ! i = ''SN-'' @ replicate (3 - length (toString i)) CHR ''0'' @ toString i
      \<and> decimal_value (drop 3 (generateSerialNumbers 1001 ! i)) = i
      \<and> length (generateSerialNumbers 1001 ! i) = 3 + max 3 (length (toString i))"
    and b: "(\<forall>s \<in> set (generateSerialNumbers 1001). length s = 6) \<longleftrightarrow> (1001::int) \<le> 1000"
    by blast+
  from a lt have e1: "generateSerialNumbers 1001 ! 7 = ''SN-'' @ replicate (3 - length (toString 7)) CHR ''0'' @ toString 7"
    and e2: "decimal_value (drop 3 (generateSerialNumbers 1001 ! 7)) = 7"
    and e3: "length (generateSerialNumbers 1001 ! 7) = 3 + max 3 (length (toString 7))"
    by blast+
  have g1: "generateSerialNumbers 1001 ! 7 = ''SN-007''" unfolding e1 by (simp add: t7 r)
  have g3: "length (generateSerialNumbers 1001 ! 7) = 6" unfolding e3 by (simp add: t7)
  from b have nb: "\<not> (\<forall>s \<in> set (generateSerialNumbers 1001). length s = 6)" by simp
  from g1 e2 g3 nb show ?thesis by blast
qed

text \<open>
  The claim as the specification states it fails: in a fleet of 1001 devices the first
  identifier is padded to three digits and the last has four, so the width is neither
  derived from the device count nor fixed.
\<close>

theorem generateSerialNumbers_width_not_derived:
  "generateSerialNumbers 1001 ! 0 = ''SN-000'' \<and> generateSerialNumbers 1001 ! 1000 = ''SN-1000''"
proof -
  have a: "serialNumber 0 = ''SN-000''" by code_simp
  have b: "serialNumber 1000 = ''SN-1000''" by code_simp
  show ?thesis by (simp add: generateSerialNumbers_def a b)
qed

section \<open>Verification: the API client\<close>

lemma attempt_429:
  "status r = 429 \<Longrightarrow> attempt cfg (Resolves r) k =
     (if k < MAX_RETRIES cfg then Retry
      else Throw (Error (''Rate limit exceeded after '' @ toString (MAX_RETRIES cfg) @ '' retries'')))"
  by (simp add: attempt_def try_block_def catch_block_def Error_def)

lemma fetchDeviceData_429_last:
  assumes "server snList k = Resolves r" "status r = 429" "\<not> k < MAX_RETRIES cfg"
  shows "fetchDeviceData cfg server snList k =
     ([Attempt k], Inl (Error (''Rate limit exceeded after '' @ toString (MAX_RETRIES cfg) @ '' retries'')))"
  using assms by (subst fetchDeviceData.simps) (simp add: attempt_429)

lemma fetchDeviceData_429_retry:
  assumes "server snList k = Resolves r" "status r = 429" "k < MAX_RETRIES cfg"
  shows "fetchDeviceData cfg server snList k =
     (Attempt k # Sleep (INITIAL_RETRY_DELAY_MS cfg * 2 ^ k) # fst (fetchDeviceData cfg server snList (Suc k)),
      snd (fetchDeviceData cfg server snList (Suc k)))"
  using assms by (subst fetchDeviceData.simps) (simp add: attempt_429 split: prod.splits)

lemma fetchDeviceData_401:
  assumes "server snList k = Resolves r" "status r = 401"
  shows "fetchDeviceData cfg server snList k =
     ([Attempt k],
      Inl (case body r of
             NotJson m \<Rightarrow> \<lparr>name = ''SyntaxError'', message = m\<rparr>
           | Json JNull \<Rightarrow> null_property_error ''error''
           | Json (JObject err d) \<Rightarrow> Error (''Authentication failed: '' @ template_literal err)))"
  using assms
  by (subst fetchDeviceData.simps)
     (simp add: attempt_def try_block_def catch_block_def Error_def null_property_error_def
           split: body_json.splits json.splits)

lemma fetchDeviceData_429_from:
  assumes all: "\<forall>k. \<exists>r. server snList k = Resolves r \<and> status r = 429"
    and le: "k \<le> MAX_RETRIES cfg"
  shows "fetchDeviceData cfg server snList k =
     (concat (map (\<lambda>j. [Attempt j, Sleep (INITIAL_RETRY_DELAY_MS cfg * 2 ^ j)]) [k..<MAX_RETRIES cfg])
        @ [Attempt (MAX_RETRIES cfg)],
      Inl (Error (''Rate limit exceeded after '' @ toString (MAX_RETRIES cfg) @ '' retries'')))"
  using le
proof (induction "MAX_RETRIES cfg - k" arbitrary: k)
  case 0
  then have k: "k = MAX_RETRIES cfg" by simp
  from all obtain r where r: "server snList k = Resolves r" "status r = 429" by blast
  have "\<not> k < MAX_RETRIES cfg" using k by simp
  from fetchDeviceData_429_last [where server = server, OF r this] show ?case by (simp add: k)
next
  case (Suc n)
  then have lt: "k < MAX_RETRIES cfg" by simp
  from all obtain r where r: "server snList k = Resolves r" "status r = 429" by blast
  have IH: "fetchDeviceData cfg server snList (Suc k) =
     (concat (map (\<lambda>j. [Attempt j, Sleep (INITIAL_RETRY_DELAY_MS cfg * 2 ^ j)]) [Suc k..<MAX_RETRIES cfg])
        @ [Attempt (MAX_RETRIES cfg)],
      Inl (Error (''Rate limit exceeded after '' @ toString (MAX_RETRIES cfg) @ '' retries'')))"
    using Suc.hyps(1) [of "Suc k"] Suc.hyps(2) lt by simp
  show ?case
    unfolding fetchDeviceData_429_retry [where server = server, OF r lt] IH
    using lt by (simp add: upt_conv_Cons)
qed

text \<open>
  Claim C2. With \<open>MAX_RETRIES = 3\<close> and \<open>INITIAL_RETRY_DELAY_MS = 1500\<close>, against an
  endpoint that answers every attempt with status 429, \<open>fetchDeviceData\<close> makes
  exactly four requests, sleeps 1500, 3000 and 6000 milliseconds before the second,
  third and fourth, and then throws the error
  \<open>Rate limit exceeded after 3 retries\<close>.
\<close>

theorem fetchDeviceData_persistent_429:
  assumes "MAX_RETRIES cfg = 3" and "INITIAL_RETRY_DELAY_MS cfg = 1500"
    and "\<forall>k. \<exists>r. server snList k = Resolves r \<and> status r = 429"
  shows "fetchDeviceData cfg server snList 0 =
           ([Attempt 0, Sleep 1500, Attempt 1, Sleep 3000, Attempt 2, Sleep 6000, Attempt 3],
            Inl (Error ''Rate limit exceeded after 3 retries''))
         \<and> attempts (fst (fetchDeviceData cfg server snList 0)) = 4"
proof -
  from assms(3) obtain r0 r1 r2 r3 where
    r: "server snList 0 = Resolves r0" "status r0 = 429"
       "server snList 1 = Resolves r1" "status r1 = 429"
       "server snList 2 = Resolves r2" "status r2 = 429"
       "server snList 3 = Resolves r3" "status r3 = 429"
    by metis
  have t3: "toString 3 = ''3''" by code_simp
  have a3: "fetchDeviceData cfg server snList 3 =
      ([Attempt 3], Inl (Error ''Rate limit exceeded after 3 retries''))"
    using fetchDeviceData_429_last [where server = server and snList = snList and k = 3 and r = r3 and cfg = cfg]
      r assms(1) by (simp add: t3)
  have a2: "fetchDeviceData cfg server snList 2 =
      ([Attempt 2, Sleep 6000, Attempt 3], Inl (Error ''Rate limit exceeded after 3 retries''))"
    using fetchDeviceData_429_retry [where server = server and snList = snList and k = 2 and r = r2 and cfg = cfg]
      r assms(1,2) a3
    by (simp add: numeral_3_eq_3 [symmetric] eval_nat_numeral(3) [symmetric])
  have a1: "fetchDeviceData cfg server snList 1 =
      ([Attempt 1, Sleep 3000, Attempt 2, Sleep 6000, Attempt 3],
       Inl (Error ''Rate limit exceeded after 3 retries''))"
    using fetchDeviceData_429_retry [where server = server and snList = snList and k = 1 and r = r1 and cfg = cfg]
      r assms(1,2) a2
    by (simp add: numeral_2_eq_2 [symmetric])
  have a0: "fetchDeviceData cfg server snList 0 =
      ([Attempt 0, Sleep 1500, Attempt 1, Sleep 3000, Attempt 2, Sleep 6000, Attempt 3],
       Inl (Error ''Rate limit exceeded after 3 retries''))"
    using fetchDeviceData_429_retry [where server = server and snList = snList and k = 0 and r = r0 and cfg = cfg]
      r assms(1,2) a1
    by simp
  show ?thesis unfolding a0 by (simp add: attempts_def)
qed

theorem fetchDeviceData_persistent_429_witness:
  "fetchDeviceData default_config
     (\<lambda>snList k. Resolves \<lparr>status = 429,
        body = Json (JObject (Some ''Too Many Requests. Limit: 1 req/sec.'') None)\<rparr>)
     [''SN-000'', ''SN-001''] 0 =
   ([Attempt 0, Sleep 1500, Attempt 1, Sleep 3000, Attempt 2, Sleep 6000, Attempt 3],
    Inl \<lparr>name = ''Error'', message = ''Rate limit exceeded after 3 retries''\<rparr>)"
  using fetchDeviceData_persistent_429 [of default_config
     "\<lambda>snList k. Resolves \<lparr>status = 429,
        body = Json (JObject (Some ''Too Many Requests. Limit: 1 req/sec.'') None)\<rparr>"
     "[''SN-000'', ''SN-001'']"]
  by (simp add: default_config_def Error_def)

text \<open>
  Claim C6, at the input where the code departs from it. An endpoint that answers
  with status 401 and a body that is not JSON makes \<open>fetchDeviceData\<close> stop after one
  request, but what it throws is the SyntaxError of \<open>response.json()\<close>: the error
  \<open>Authentication failed: \<dots>\<close> is never built. (For a 401 body that is a JSON object,
  lemma \<open>fetchDeviceData_401\<close> gives the authentication error; in every case there is
  one request and no sleep.)
\<close>

theorem fetchDeviceData_401_unparsable_body:
  "fetchDeviceData cfg (\<lambda>snList k. Resolves \<lparr>status = 401, body = NotJson m\<rparr>) snList 0 =
     ([Attempt 0], Inl \<lparr>name = ''SyntaxError'', message = m\<rparr>)"
  by (simp add: fetchDeviceData_401 [where r = "\<lparr>status = 401, body = NotJson m\<rparr>"])

section \<open>Verification: the rate limiter\<close>

subsection \<open>Auxiliary notions used in the statements and proofs\<close>

text \<open>
  The times at which executions began; the tasks whose execution has begun, in the
  order in which they began; the entries still to come (the one the worker sleeps
  for, then the queue); the tasks submitted by a sequence of events, in order.
\<close>

definition start_times :: "('a, 'r) limiter \<Rightarrow> int list" where
  "start_times s = map snd (started s)"

definition begun :: "('a, 'r) limiter \<Rightarrow> 'a item list" where
  "begun s = map fst (started s)"

definition waiting :: "('a, 'r) limiter \<Rightarrow> 'a item list" where
  "waiting s = (case worker s of Sleeping it due \<Rightarrow> [it] | _ \<Rightarrow> []) @ queue s"

fun submitted :: "('a, 'r) event \<Rightarrow> 'a list" where
  "submitted (Execute f) = [f]"
| "submitted e = []"

definition submissions :: "('a, 'r) event list \<Rightarrow> 'a list" where
  "submissions evs = concat (map submitted evs)"

definition sleeper :: "('a, 'r) limiter \<Rightarrow> 'a item list" where
  "sleeper s = (case worker s of Sleeping it due \<Rightarrow> [it] | _ \<Rightarrow> [])"

text \<open>
  An event is on time when it is not a step back of the clock and not a timer that
  fires before \<open>Date.now()\<close> has reached the time it was set for; a sequence of events
  is punctual from a state when each of its events is on time in the state it meets.
\<close>

definition on_time :: "('a, 'r) event \<Rightarrow> ('a, 'r) limiter \<Rightarrow> bool" where
  "on_time e s =
     (case e of
        Tick d \<Rightarrow> 0 \<le> d
      | TimerFires \<Rightarrow> (case worker s of Sleeping it due \<Rightarrow> due \<le> clock s | _ \<Rightarrow> True)
      | _ \<Rightarrow> True)"

fun punctual :: "('a, 'r) event list \<Rightarrow> ('a, 'r) limiter \<Rightarrow> bool" where
  "punctual [] s = True"
| "punctual (e # evs) s = (on_time e s \<and> punctual evs (step e s))"

text \<open>
  The invariants. \<open>paced\<close> (kept by events that are on time): the recorded start times
  are at least \<open>intervalMs\<close> apart, \<open>lastRequestTime\<close> is the latest of them, and a
  sleeping worker is not due before \<open>lastRequestTime + intervalMs\<close>. \<open>wf_limiter\<close>: promise numbers grow along the begun
  tasks followed by the waiting ones, only begun tasks are settled, and the worker is
  idle whenever \<open>processing\<close> is false. \<open>fifo\<close>: the entry with promise number \<open>k\<close>
  carries the \<open>k\<close>-th submitted task, and without a \<open>clear()\<close> no number is missing.
  \<open>dropped\<close>: a promise that was created but is neither begun nor waiting.
\<close>

definition paced :: "('a, 'r) limiter \<Rightarrow> bool" where
  "paced s \<longleftrightarrow>
     successively (\<lambda>t t'. t + intervalMs s \<le> t') (start_times s)
     \<and> (started s \<noteq> [] \<longrightarrow> lastRequestTime s = last (start_times s) \<and> lastRequestTime s \<le> clock s)
     \<and> (\<forall>it due. worker s = Sleeping it due \<longrightarrow> started s \<noteq> [] \<longrightarrow>
            lastRequestTime s + intervalMs s \<le> due)"

definition wf_limiter :: "('a, 'r) limiter \<Rightarrow> bool" where
  "wf_limiter s \<longleftrightarrow>
     (\<not> processing s \<longrightarrow> worker s = Idle)
     \<and> sorted_wrt (<) (map ident (begun s @ waiting s))
     \<and> (\<forall>it \<in> set (begun s @ waiting s). ident it < promises s)
     \<and> (\<forall>it. worker s = Running it \<longrightarrow> it \<in> set (begun s))
     \<and> dom (settled s) \<subseteq> ident ` set (begun s)"

definition fifo :: "('a, 'r) event list \<Rightarrow> ('a, 'r) limiter \<Rightarrow> bool" where
  "fifo evs s \<longleftrightarrow>
     promises s = length (submissions evs)
     \<and> (\<forall>it \<in> set (begun s @ waiting s). task it = submissions evs ! ident it)
     \<and> (Clear \<notin> set evs \<longrightarrow> map ident (begun s @ waiting s) = [0..<promises s])"

definition dropped :: "nat \<Rightarrow> ('a, 'r) limiter \<Rightarrow> bool" where
  "dropped k s \<longleftrightarrow> k < promises s \<and> k \<notin> ident ` set (begun s @ waiting s)"

text \<open>
  A limiter and sequences of events to run it on. In \<open>early_timer_events\<close> two tasks
  are submitted back to back to a limiter with an interval of 20 milliseconds, the
  first completes at once, and the timer set for the second fires when \<open>Date.now()\<close>
  has advanced by 19.
\<close>

definition demo_limiter :: "(string, unit) limiter" where
  "demo_limiter = new_RateLimiter 1100 5000"

definition demo_events :: "(string, unit) event list" where
  "demo_events = [Execute ''A'', Execute ''B'', Execute ''C'', Tick 300, TaskSettles (Inr ()),
                  Tick 800, TimerFires]"

definition demo_events_after_clear :: "(string, unit) event list" where
  "demo_events_after_clear = [TaskSettles (Inr ()), Execute ''D'', Tick 1100, TimerFires,
                              TaskSettles (Inr ())]"

definition early_timer_events :: "(string, unit) event list" where
  "early_timer_events = [Execute ''A'', Execute ''B'', TaskSettles (Inr ()), Tick 19, TimerFires]"

subsection \<open>Runs\<close>

lemma run_Cons: "run (e # evs) s = run evs (step e s)"
  by (simp add: run_def)

lemma run_snoc: "run (evs @ [e]) s = step e (run evs s)"
  by (simp add: run_def)

lemma run_Nil: "run [] s = s"
  by (simp add: run_def)

text \<open>
  The limiter hands the outcome of a task to the promise of its entry unchanged:
  \<open>resolve(result)\<close> for a returned value, \<open>reject(error)\<close> for a thrown error.
\<close>

lemma settles_hands_over:
  "worker s = Running it \<Longrightarrow> settled (step (TaskSettles out) s) (ident it) = Some (settle out)"
  by (simp add: loop_head_def begin_task_def Let_def split: list.splits)

subsection \<open>Pacing\<close>

lemma paced_begin_task:
  assumes "paced s" and "started s \<noteq> [] \<longrightarrow> lastRequestTime s + intervalMs s \<le> clock s"
  shows "paced (begin_task it s)"
proof (cases "started s = []")
  case True
  then show ?thesis by (simp add: paced_def begin_task_def start_times_def)
next
  case False
  then have "last (map snd (started s)) = snd (last (started s))" by (simp add: last_map)
  with False assms show ?thesis
    by (simp add: paced_def begin_task_def start_times_def successively_append_iff)
qed

lemma paced_queue_update [simp]: "paced (s\<lparr>queue := q\<rparr>) = paced s"
  by (simp add: paced_def start_times_def)

lemma paced_processing_update [simp]: "paced (s\<lparr>processing := b\<rparr>) = paced s"
  by (simp add: paced_def start_times_def)

lemma paced_settled_update [simp]: "paced (s\<lparr>settled := m\<rparr>) = paced s"
  by (simp add: paced_def start_times_def)

lemma paced_promises_update [simp]: "paced (s\<lparr>promises := m\<rparr>) = paced s"
  by (simp add: paced_def start_times_def)

lemma paced_loop_head: "paced s \<Longrightarrow> paced (loop_head s)"
proof (cases "queue s")
  case Nil
  assume "paced s"
  then show ?thesis using Nil by (auto simp: loop_head_def paced_def start_times_def)
next
  case (Cons it rest)
  assume p: "paced s"
  show ?thesis
  proof (cases "0 < max 0 (intervalMs s - (clock s - lastRequestTime s))")
    case True
    then have "loop_head s = s\<lparr>queue := rest, worker := Sleeping it (lastRequestTime s + intervalMs s)\<rparr>"
      using Cons by (simp add: loop_head_def Let_def max_def split: if_splits)
    then show ?thesis using p by (auto simp: paced_def start_times_def last_map)
  next
    case False
    then have le: "lastRequestTime s + intervalMs s \<le> clock s" by (simp add: max_def split: if_splits)
    from False have "loop_head s = begin_task it (s\<lparr>queue := rest\<rparr>)"
      using Cons by (simp add: loop_head_def Let_def)
    then show ?thesis using p le by (simp add: paced_begin_task)
  qed
qed

lemma paced_step:
  assumes p: "paced s" and ot: "on_time e s"
  shows "paced (step e s)"
proof (cases e)
  case (Execute f)
  then show ?thesis using p
    by (simp add: execute_def processQueue_def paced_loop_head)
next
  case Clear
  then show ?thesis using p by (simp add: clear_def)
next
  case (Tick d)
  with ot have "0 \<le> d" by (simp add: on_time_def)
  then show ?thesis using p Tick by (auto simp: paced_def start_times_def)
next
  case TimerFires
  show ?thesis
  proof (cases "worker s")
    case (Sleeping it due)
    with ot TimerFires have due: "due \<le> clock s" by (simp add: on_time_def)
    from p Sleeping have "started s \<noteq> [] \<longrightarrow> lastRequestTime s + intervalMs s \<le> due"
      by (auto simp: paced_def)
    with due have "started s \<noteq> [] \<longrightarrow> lastRequestTime s + intervalMs s \<le> clock s" by auto
    from paced_begin_task [OF p this] show ?thesis using TimerFires Sleeping by simp
  qed (use p TimerFires in simp_all)
next
  case (TaskSettles out)
  show ?thesis
  proof (cases "worker s")
    case (Running it)
    have "paced (s\<lparr>settled := (settled s)(ident it \<mapsto> settle out)\<rparr>)" using p by simp
    from paced_loop_head [OF this] show ?thesis using TaskSettles Running by simp
  qed (use p TaskSettles in simp_all)
qed

lemma intervalMs_loop_head [simp]: "intervalMs (loop_head s) = intervalMs s"
  by (simp add: loop_head_def begin_task_def Let_def split: list.splits)

lemma intervalMs_step [simp]: "intervalMs (step e s) = intervalMs s"
  by (cases e) (simp_all add: execute_def processQueue_def clear_def begin_task_def split: worker.splits)

lemma intervalMs_run [simp]: "intervalMs (run evs s) = intervalMs s"
  by (induction evs rule: rev_induct) (simp_all add: run_snoc run_Nil)

lemma paced_run: "paced s \<Longrightarrow> punctual evs s \<Longrightarrow> paced (run evs s)"
  by (induction evs arbitrary: s) (simp_all add: run_Cons run_Nil paced_step)

lemma paced_new: "paced (new_RateLimiter interval t0)"
  by (simp add: paced_def new_RateLimiter_def start_times_def)

text \<open>
  What the pacing of \<open>processQueue\<close> does achieve: on a punctual run, where the clock
  is never set back and no timer fires early, the recorded start times of any two
  consecutive executions are at least \<open>intervalMs\<close> apart.
\<close>

lemma punctual_starts_are_spaced:
  assumes "punctual evs (new_RateLimiter interval t0 :: ('a, 'r) limiter)"
    and "Suc n < length (started (run evs (new_RateLimiter interval t0 :: ('a, 'r) limiter)))"
  shows "snd (started (run evs (new_RateLimiter interval t0 :: ('a, 'r) limiter)) ! n) + interval
           \<le> snd (started (run evs (new_RateLimiter interval t0 :: ('a, 'r) limiter)) ! Suc n)"
proof -
  let ?s = "run evs (new_RateLimiter interval t0) :: ('a, 'r) limiter"
  have "paced ?s" by (rule paced_run [OF paced_new assms(1)])
  then have "successively (\<lambda>t t'. t + interval \<le> t') (start_times ?s)"
    by (simp add: paced_def new_RateLimiter_def)
  from successively_nth [OF this, of n] assms(2) show ?thesis
    by (simp add: start_times_def)
qed

subsection \<open>Order of execution\<close>

lemma order_loop_head:
  assumes "\<forall>it due. worker s \<noteq> Sleeping it due"
  shows "begun (loop_head s) @ waiting (loop_head s) = begun s @ waiting s"
  using assms
  by (cases "worker s")
     (auto simp: loop_head_def begun_def waiting_def begin_task_def Let_def split: list.splits)

lemma loop_head_fields [simp]:
  "promises (loop_head s) = promises s"
  "settled (loop_head s) = settled s"
  by (auto simp: loop_head_def begin_task_def Let_def split: list.splits)

lemma begun_loop_head: "set (begun s) \<subseteq> set (begun (loop_head s))"
  by (auto simp: loop_head_def begin_task_def begun_def Let_def split: list.splits)

lemma loop_head_worker:
  "worker (loop_head s) = Running it \<Longrightarrow> it \<in> set (begun (loop_head s))"
  "processing s \<Longrightarrow> \<not> processing (loop_head s) \<Longrightarrow> worker (loop_head s) = Idle"
  by (auto simp: loop_head_def begin_task_def begun_def Let_def split: list.splits if_splits)

lemma wf_loop_head:
  assumes "wf_limiter s" and "\<forall>it due. worker s \<noteq> Sleeping it due" and "processing s"
  shows "wf_limiter (loop_head s)"
  unfolding wf_limiter_def
proof (intro conjI)
  show "\<not> processing (loop_head s) \<longrightarrow> worker (loop_head s) = Idle"
    using loop_head_worker(2) [OF assms(3)] by blast
  show "sorted_wrt (<) (map ident (begun (loop_head s) @ waiting (loop_head s)))"
    using assms(1) by (simp only: order_loop_head [OF assms(2)]) (simp add: wf_limiter_def)
  show "\<forall>it \<in> set (begun (loop_head s) @ waiting (loop_head s)). ident it < promises (loop_head s)"
    using assms(1) by (simp only: order_loop_head [OF assms(2)]) (simp add: wf_limiter_def)
  show "\<forall>it. worker (loop_head s) = Running it \<longrightarrow> it \<in> set (begun (loop_head s))"
    using loop_head_worker(1) by blast
  show "dom (settled (loop_head s)) \<subseteq> ident ` set (begun (loop_head s))"
  proof -
    have "dom (settled s) \<subseteq> ident ` set (begun s)" using assms(1) by (simp add: wf_limiter_def)
    also have "\<dots> \<subseteq> ident ` set (begun (loop_head s))" by (rule image_mono [OF begun_loop_head])
    finally show ?thesis by simp
  qed
qed

lemma wf_step: "wf_limiter s \<Longrightarrow> wf_limiter (step e s)"
proof (cases e)
  case (Execute f)
  assume wf: "wf_limiter s"
  let ?s = "s\<lparr>queue := queue s @ [\<lparr>ident = promises s, task = f\<rparr>], promises := Suc (promises s)\<rparr>"
  have wf': "wf_limiter ?s"
    using wf
    by (auto simp: wf_limiter_def begun_def waiting_def sorted_wrt_append less_Suc_eq
             split: worker.splits)
  show ?thesis
  proof (cases "processing ?s \<or> queue ?s = []")
    case True
    then show ?thesis using Execute wf' by (simp add: execute_def processQueue_def)
  next
    case False
    then have idle: "worker s = Idle" using wf by (simp add: wf_limiter_def)
    have "wf_limiter (?s\<lparr>processing := True\<rparr>)"
      using wf' by (simp add: wf_limiter_def begun_def waiting_def)
    from wf_loop_head [OF this] idle show ?thesis
      using Execute False by (simp add: execute_def processQueue_def)
  qed
next
  case Clear
  assume "wf_limiter s"
  then show ?thesis using Clear
    by (auto simp: wf_limiter_def clear_def begun_def waiting_def sorted_wrt_append
             split: worker.splits)
next
  case (Tick d)
  assume "wf_limiter s"
  then show ?thesis using Tick by (simp add: wf_limiter_def begun_def waiting_def)
next
  case TimerFires
  assume wf: "wf_limiter s"
  show ?thesis
  proof (cases "worker s")
    case (Sleeping it due)
    then show ?thesis using wf TimerFires
      by (auto simp: wf_limiter_def begin_task_def begun_def waiting_def)
  qed (use wf TimerFires in simp_all)
next
  case (TaskSettles out)
  assume wf: "wf_limiter s"
  show ?thesis
  proof (cases "worker s")
    case (Running it)
    let ?s = "s\<lparr>settled := (settled s)(ident it \<mapsto> settle out)\<rparr>"
    have "wf_limiter ?s"
      using wf Running by (auto simp: wf_limiter_def begun_def waiting_def)
    moreover have "\<forall>it due. worker ?s \<noteq> Sleeping it due" using Running by simp
    moreover have "processing ?s" using wf Running by (auto simp: wf_limiter_def)
    ultimately have "wf_limiter (loop_head ?s)" by (rule wf_loop_head)
    then show ?thesis using Running TaskSettles by simp
  qed (use wf TaskSettles in simp_all)
qed


lemma waiting_sleeper: "waiting s = sleeper s @ queue s"
  by (simp add: waiting_def sleeper_def)

lemma schedule_step:
  assumes "wf_limiter s"
  shows "begun (step (Execute f) s) @ waiting (step (Execute f) s)
           = (begun s @ waiting s) @ [\<lparr>ident = promises s, task = f\<rparr>]"
    and "promises (step (Execute f) s) = Suc (promises s)"
    and "begun (step Clear s) @ waiting (step Clear s) = begun s @ sleeper s"
    and "begun (step (Tick d) s) @ waiting (step (Tick d) s) = begun s @ waiting s"
    and "begun (step TimerFires s) @ waiting (step TimerFires s) = begun s @ waiting s"
    and "begun (step (TaskSettles out) s) @ waiting (step (TaskSettles out) s) = begun s @ waiting s"
    and "\<forall>f. e \<noteq> Execute f \<Longrightarrow> promises (step e s) = promises s"
proof -
  let ?s = "s\<lparr>queue := queue s @ [\<lparr>ident = promises s, task = f\<rparr>], promises := Suc (promises s)\<rparr>"
  have app: "begun ?s @ waiting ?s = (begun s @ waiting s) @ [\<lparr>ident = promises s, task = f\<rparr>]"
    by (simp add: begun_def waiting_def)
  show "begun (step (Execute f) s) @ waiting (step (Execute f) s)
           = (begun s @ waiting s) @ [\<lparr>ident = promises s, task = f\<rparr>]"
  proof (cases "processing s")
    case True
    then show ?thesis using app by (simp add: execute_def processQueue_def)
  next
    case False
    then have "worker s = Idle" using assms by (simp add: wf_limiter_def)
    then have "\<forall>it due. worker (?s\<lparr>processing := True\<rparr>) \<noteq> Sleeping it due" by simp
    from order_loop_head [OF this] have
      "begun (loop_head (?s\<lparr>processing := True\<rparr>)) @ waiting (loop_head (?s\<lparr>processing := True\<rparr>))
         = begun ?s @ waiting ?s"
      by (simp add: begun_def waiting_def)
    then show ?thesis using False app by (simp add: execute_def processQueue_def)
  qed
  show "promises (step (Execute f) s) = Suc (promises s)"
    by (simp add: execute_def processQueue_def)
  show "begun (step Clear s) @ waiting (step Clear s) = begun s @ sleeper s"
    by (simp add: clear_def begun_def waiting_def sleeper_def)
  show "begun (step (Tick d) s) @ waiting (step (Tick d) s) = begun s @ waiting s"
    by (simp add: begun_def waiting_def)
  show "begun (step TimerFires s) @ waiting (step TimerFires s) = begun s @ waiting s"
    by (cases "worker s") (simp_all add: begun_def waiting_def begin_task_def)
  show "begun (step (TaskSettles out) s) @ waiting (step (TaskSettles out) s) = begun s @ waiting s"
  proof (cases "worker s")
    case (Running it)
    let ?t = "s\<lparr>settled := (settled s)(ident it \<mapsto> settle out)\<rparr>"
    have "\<forall>it due. worker ?t \<noteq> Sleeping it due" using Running by simp
    from order_loop_head [OF this] show ?thesis using Running
      by (simp add: begun_def waiting_def)
  qed simp_all
  show "promises (step e s) = promises s" if "\<forall>f. e \<noteq> Execute f"
    using that by (cases e) (simp_all add: clear_def begin_task_def split: worker.splits)
qed

lemma submissions_snoc: "submissions (evs @ [e]) = submissions evs @ submitted e"
  by (simp add: submissions_def)

lemma fifo_step:
  assumes wf: "wf_limiter s" and ff: "fifo evs s"
  shows "fifo (evs @ [e]) (step e s)"
proof (cases e)
  case (Execute f)
  have old: "\<forall>it \<in> set (begun s @ waiting s). ident it < length (submissions evs)"
    using wf ff by (simp add: wf_limiter_def fifo_def)
  show ?thesis
    unfolding fifo_def Execute schedule_step(1,2) [OF wf] submissions_snoc
    using ff old by (auto simp: fifo_def nth_append)
next
  case Clear
  have "set (sleeper s) \<subseteq> set (waiting s)" by (simp add: waiting_sleeper)
  then show ?thesis
    unfolding fifo_def Clear schedule_step(3) [OF wf] submissions_snoc
    using ff schedule_step(7) [OF wf, of Clear] by (auto simp: fifo_def)
next
  case (Tick d)
  show ?thesis
    unfolding fifo_def Tick schedule_step(4) [OF wf] submissions_snoc
    using ff schedule_step(7) [OF wf, of "Tick d"] by (auto simp: fifo_def)
next
  case TimerFires
  show ?thesis
    unfolding fifo_def TimerFires schedule_step(5) [OF wf] submissions_snoc
    using ff schedule_step(7) [OF wf, of TimerFires] by (auto simp: fifo_def)
next
  case (TaskSettles out)
  show ?thesis
    unfolding fifo_def TaskSettles schedule_step(6) [OF wf] submissions_snoc
    using ff schedule_step(7) [OF wf, of "TaskSettles out"] by (auto simp: fifo_def)
qed

lemma wf_new: "wf_limiter (new_RateLimiter interval t0)"
  by (simp add: wf_limiter_def new_RateLimiter_def begun_def waiting_def)

lemma wf_run: "wf_limiter s \<Longrightarrow> wf_limiter (run evs s)"
  by (induction evs rule: rev_induct) (simp_all add: run_snoc run_Nil wf_step)

lemma fifo_run: "fifo evs (run evs (new_RateLimiter interval t0))"
proof (induction evs rule: rev_induct)
  case Nil
  show ?case
    by (simp add: run_Nil fifo_def new_RateLimiter_def begun_def waiting_def submissions_def)
next
  case (snoc e evs)
  show ?case
    unfolding run_snoc by (rule fifo_step [OF wf_run [OF wf_new] snoc.IH])
qed


lemma begun_in_submission_order:
  fixes evs :: "('a, 'r) event list" and interval t0 :: int
  defines "s \<equiv> run evs (new_RateLimiter interval t0 :: ('a, 'r) limiter)"
  shows "sorted_wrt (<) (map ident (begun s))"
    and "\<forall>it \<in> set (begun s). ident it < length (submissions evs) \<and> task it = submissions evs ! ident it"
    and "Clear \<notin> set evs \<longrightarrow> map task (begun s) = take (length (begun s)) (submissions evs)"
proof -
  have wf: "wf_limiter s" unfolding s_def by (rule wf_run [OF wf_new])
  have ff: "fifo evs s" unfolding s_def by (rule fifo_run)
  from wf show "sorted_wrt (<) (map ident (begun s))"
    by (simp add: wf_limiter_def sorted_wrt_append)
  from wf ff show in_order:
    "\<forall>it \<in> set (begun s). ident it < length (submissions evs) \<and> task it = submissions evs ! ident it"
    by (simp add: wf_limiter_def fifo_def)
  show "Clear \<notin> set evs \<longrightarrow> map task (begun s) = take (length (begun s)) (submissions evs)"
  proof
    assume "Clear \<notin> set evs"
    with ff have all: "map ident (begun s) @ map ident (waiting s) = [0..<length (submissions evs)]"
      by (simp add: fifo_def)
    then have "length (begun s) + length (waiting s) = length (submissions evs)"
      by (metis length_append length_map length_upt minus_nat.diff_0)
    then have le: "length (begun s) \<le> length (submissions evs)" by simp
    have "map ident (begun s) = take (length (begun s)) (map ident (begun s) @ map ident (waiting s))"
      by simp
    also have "\<dots> = [0..<length (begun s)]"
      unfolding all using le by (simp add: take_upt)
    finally have ids: "map ident (begun s) = [0..<length (begun s)]" .
    have "map task (begun s) = map (\<lambda>it. submissions evs ! ident it) (begun s)"
      using in_order by simp
    also have "\<dots> = map ((!) (submissions evs)) (map ident (begun s))" by (simp add: comp_def)
    also have "\<dots> = take (length (begun s)) (submissions evs)"
      unfolding ids using le by (intro nth_equalityI) simp_all
    finally show "map task (begun s) = take (length (begun s)) (submissions evs)" .
  qed
qed

subsection \<open>Cleared entries\<close>

lemma dropped_step:
  assumes wf: "wf_limiter s" and d: "dropped k s"
  shows "dropped k (step e s)"
proof (cases e)
  case (Execute f)
  show ?thesis
    unfolding dropped_def Execute schedule_step(1,2) [OF wf]
    using d by (auto simp: dropped_def)
next
  case Clear
  show ?thesis
    unfolding dropped_def Clear schedule_step(3) [OF wf]
    using d schedule_step(7) [OF wf, of Clear] by (auto simp: dropped_def waiting_sleeper)
next
  case (Tick d')
  show ?thesis
    unfolding dropped_def Tick schedule_step(4) [OF wf]
    using d schedule_step(7) [OF wf, of "Tick d'"] by (auto simp: dropped_def)
next
  case TimerFires
  show ?thesis
    unfolding dropped_def TimerFires schedule_step(5) [OF wf]
    using d schedule_step(7) [OF wf, of TimerFires] by (auto simp: dropped_def)
next
  case (TaskSettles out)
  show ?thesis
    unfolding dropped_def TaskSettles schedule_step(6) [OF wf]
    using d schedule_step(7) [OF wf, of "TaskSettles out"] by (auto simp: dropped_def)
qed

lemma dropped_run: "wf_limiter s \<Longrightarrow> dropped k s \<Longrightarrow> dropped k (run evs s)"
  by (induction evs rule: rev_induct) (simp_all add: run_snoc run_Nil dropped_step wf_run)

lemma dropped_unsettled:
  assumes "wf_limiter s" and "dropped k s"
  shows "settled s k = None" and "k \<notin> ident ` set (begun s)"
proof -
  from assms(2) show nb: "k \<notin> ident ` set (begun s)" by (auto simp: dropped_def)
  from assms(1) have "dom (settled s) \<subseteq> ident ` set (begun s)" by (simp add: wf_limiter_def)
  with nb have "k \<notin> dom (settled s)" by blast
  then show "settled s k = None" by blast
qed

lemma clear_drops:
  assumes wf: "wf_limiter s" and q: "it \<in> set (queue s)"
  shows "dropped (ident it) (step Clear s)"
proof -
  have w: "it \<in> set (begun s @ waiting s)" using q by (simp add: waiting_sleeper)
  with wf have lt: "ident it < promises s" by (simp add: wf_limiter_def)
  from wf have "sorted_wrt (<) (map ident (begun s @ sleeper s) @ map ident (queue s))"
    by (simp add: wf_limiter_def waiting_sleeper)
  then have "\<forall>x \<in> set (map ident (begun s @ sleeper s)). \<forall>y \<in> set (map ident (queue s)). x < y"
    by (simp only: sorted_wrt_append) blast
  with q have "ident it \<notin> ident ` set (begun s @ sleeper s)" by fastforce
  with lt show ?thesis
    unfolding dropped_def schedule_step(3) [OF wf]
    using schedule_step(7) [OF wf, of Clear] by simp
qed

subsection \<open>Runs of the demonstration limiter\<close>

lemma demo_run:
  "started (run demo_events demo_limiter) =
     [(\<lparr>ident = 0, task = ''A''\<rparr>, 5000), (\<lparr>ident = 1, task = ''B''\<rparr>, 6100)]"
  by (simp add: demo_events_def demo_limiter_def run_def new_RateLimiter_def execute_def
        processQueue_def loop_head_def begin_task_def Let_def)

lemma demo_queue:
  "queue (run (take 3 demo_events) demo_limiter) =
     [\<lparr>ident = 1, task = ''B''\<rparr>, \<lparr>ident = 2, task = ''C''\<rparr>]"
  by (simp add: demo_events_def demo_limiter_def run_def new_RateLimiter_def execute_def
        processQueue_def loop_head_def begin_task_def Let_def)

lemma demo_settled:
  "settled (run demo_events_after_clear (step Clear (run (take 3 demo_events) demo_limiter))) 0
     = Some (Resolved ())"
  "settled (run demo_events_after_clear (step Clear (run (take 3 demo_events) demo_limiter))) 3
     = Some (Resolved ())"
  by (simp_all add: demo_events_def demo_events_after_clear_def demo_limiter_def run_def
        new_RateLimiter_def execute_def processQueue_def loop_head_def begin_task_def clear_def
        settle_def Let_def)

subsection \<open>Claims about the limiter\<close>

text \<open>
  Claim C1, at the input where the code departs from it. Two tasks are submitted back
  to back to a limiter with \<open>intervalMs = 20\<close> while \<open>Date.now()\<close> reads 1000, and the
  first completes at once. The worker computes \<open>waitTime = 20\<close> for the second and
  sleeps; the timer fires when \<open>Date.now()\<close> reads 1019, and the code after the
  \<open>await\<close> begins the second task and records that reading with no further check.
  The recorded start times are 1000 and 1019: 19 milliseconds apart, less than
  \<open>intervalMs\<close>. (On a punctual run the gap is kept: lemma
  \<open>punctual_starts_are_spaced\<close>.)
\<close>

theorem early_timer_breaks_spacing:
  "map snd (started (run early_timer_events (new_RateLimiter 20 1000)))
     = [1000, 1019]
   \<and> map (task \<circ> fst) (started (run early_timer_events (new_RateLimiter 20 1000)))
     = [''A'', ''B'']
   \<and> snd (started (run early_timer_events (new_RateLimiter 20 1000)) ! 1)
     - snd (started (run early_timer_events (new_RateLimiter 20 1000)) ! 0) = 19"
  by (simp add: early_timer_events_def run_def new_RateLimiter_def execute_def
        processQueue_def loop_head_def begin_task_def Let_def)

text \<open>
  Claim C10. An entry that is in the queue when \<open>clear()\<close> is called is never
  executed afterwards and its promise is never settled, neither resolved nor
  rejected, whatever happens to the limiter later.
\<close>

theorem cleared_tasks_never_settle:
  "\<forall>it \<in> set (queue (run evs (new_RateLimiter interval t0))).
      settled (run evs' (step Clear (run evs (new_RateLimiter interval t0)))) (ident it) = None
      \<and> ident it \<notin> ident ` set (begun (run evs' (step Clear (run evs (new_RateLimiter interval t0)))))"
proof
  fix it
  let ?s1 = "run evs (new_RateLimiter interval t0) :: ('a, 'b) limiter"
  let ?s2 = "run evs' (step Clear ?s1)"
  assume q: "it \<in> set (queue ?s1)"
  have wf1: "wf_limiter ?s1" by (rule wf_run [OF wf_new])
  have wfc: "wf_limiter (step Clear ?s1)" by (rule wf_step [OF wf1])
  have wf2: "wf_limiter ?s2" by (rule wf_run [OF wfc])
  have "dropped (ident it) ?s2"
    by (rule dropped_run [OF wfc clear_drops [OF wf1 q]])
  from dropped_unsettled [OF wf2 this]
  show "settled ?s2 (ident it) = None \<and> ident it \<notin> ident ` set (begun ?s2)" by blast
qed

theorem cleared_tasks_never_settle_witness:
  "queue (run (take 3 demo_events) demo_limiter)
     = [\<lparr>ident = 1, task = ''B''\<rparr>, \<lparr>ident = 2, task = ''C''\<rparr>]
   \<and> settled (run demo_events_after_clear (step Clear (run (take 3 demo_events) demo_limiter))) 1 = None
   \<and> settled (run demo_events_after_clear (step Clear (run (take 3 demo_events) demo_limiter))) 2 = None
   \<and> settled (run demo_events_after_clear (step Clear (run (take 3 demo_events) demo_limiter))) 0
        = Some (Resolved ())
   \<and> settled (run demo_events_after_clear (step Clear (run (take 3 demo_events) demo_limiter))) 3
        = Some (Resolved ())"
proof -
  let ?s2 = "run demo_events_after_clear (step Clear (run (take 3 demo_events) demo_limiter))"
  from cleared_tasks_never_settle [of "take 3 demo_events" 1100 5000 demo_events_after_clear]
  have "\<forall>it \<in> set (queue (run (take 3 demo_events) demo_limiter)). settled ?s2 (ident it) = None"
    unfolding demo_limiter_def by blast
  then have "settled ?s2 1 = None" and "settled ?s2 2 = None"
    by (simp_all add: demo_queue)
  with demo_queue demo_settled show ?thesis by blast
qed

section \<open>Verification: the aggregator\<close>

subsection \<open>Auxiliary notions used in the statements and proofs\<close>

text \<open>What the fetch of one batch contributes.\<close>

definition batch_outcome :: "config \<Rightarrow> (nat \<Rightarrow> endpoint) \<Rightarrow> nat \<Rightarrow> string list \<Rightarrow> js_error + json" where
  "batch_outcome cfg net i b = snd (fetchDeviceData cfg (net i) b 0)"

fun batch_records :: "js_error + json \<Rightarrow> device list" where
  "batch_records (Inr (JObject err (Some d))) = d"
| "batch_records out = []"

fun batch_failures :: "nat \<Rightarrow> string list \<Rightarrow> js_error + json \<Rightarrow> batch_error list" where
  "batch_failures i b (Inl e) = [\<lparr>batch = i + 1, batchSerialNumbers = b, error = message e\<rparr>]"
| "batch_failures i b (Inr JNull) =
     [\<lparr>batch = i + 1, batchSerialNumbers = b, error = message (null_property_error ''data'')\<rparr>]"
| "batch_failures i b (Inr (JObject err d)) = []"

fun has_data :: "js_error + json \<Rightarrow> bool" where
  "has_data (Inr (JObject err (Some d))) = True"
| "has_data out = False"

text \<open>A small configuration and some endpoints, to run the model on.\<close>

definition small_config :: config where
  "small_config = \<lparr>RATE_LIMIT_MS = 1100, BATCH_SIZE = 2, TOTAL_DEVICES = 3,
                     MAX_RETRIES = 3, INITIAL_RETRY_DELAY_MS = 1500\<rparr>"

definition online :: "string \<Rightarrow> device" where
  "online s = \<lparr>sn = s, power = ''2.50 kW'', device_status = ''Online'',
               last_updated = ''2026-01-01T00:00:00.000Z''\<rparr>"

definition answers_ok :: endpoint where
  "answers_ok snList k = Resolves \<lparr>status = 200, body = Json (JObject None (Some (map online snList)))\<rparr>"

definition answers_429 :: endpoint where
  "answers_429 snList k =
     Resolves \<lparr>status = 429, body = Json (JObject (Some ''Too Many Requests. Limit: 1 req/sec.'') None)\<rparr>"

definition answers_no_data :: endpoint where
  "answers_no_data snList k = Resolves \<lparr>status = 200, body = Json (JObject None None)\<rparr>"

subsection \<open>What the loop computes\<close>

lemma process_batch_fields:
  "allResults (process_batch cfg net n i b st) = allResults st @ batch_records (batch_outcome cfg net i b)"
  "errs (process_batch cfg net n i b st) = errs st @ batch_failures i b (batch_outcome cfg net i b)"
  "successCount (process_batch cfg net n i b st) =
     successCount st + int (length (batch_records (batch_outcome cfg net i b)))"
  "map batchIndex (progress (process_batch cfg net n i b st)) =
     map batchIndex (progress st) @ (if has_data (batch_outcome cfg net i b) then [i] else [])"
  by (auto simp: process_batch_def batch_outcome_def Let_def
           split: sum.splits json.splits option.splits)

lemma run_batches_fields:
  "allResults (run_batches cfg net n i bs st) =
     allResults st @ concat (map (\<lambda>(k, b). batch_records (batch_outcome cfg net k b)) (enumerate i bs))"
  "errs (run_batches cfg net n i bs st) =
     errs st @ concat (map (\<lambda>(k, b). batch_failures k b (batch_outcome cfg net k b)) (enumerate i bs))"
  "successCount (run_batches cfg net n i bs st) = successCount st +
     int (length (concat (map (\<lambda>(k, b). batch_records (batch_outcome cfg net k b)) (enumerate i bs))))"
  "map batchIndex (progress (run_batches cfg net n i bs st)) =
     map batchIndex (progress st) @
     map fst (filter (\<lambda>(k, b). has_data (batch_outcome cfg net k b)) (enumerate i bs))"
proof (induction bs arbitrary: i st)
  case Nil
  { case 1 show ?case by simp }
  { case 2 show ?case by simp }
  { case 3 show ?case by simp }
  { case 4 show ?case by simp }
next
  case (Cons b bs)
  { case 1 show ?case by (simp add: Cons.IH(1) process_batch_fields) }
  { case 2 show ?case by (simp add: Cons.IH(2) process_batch_fields) }
  { case 3 show ?case by (simp add: Cons.IH(3) process_batch_fields) }
  { case 4 show ?case by (simp add: Cons.IH(4) process_batch_fields) }
qed


lemma aggregateDeviceData_report:
  assumes "prepareBatches (TOTAL_DEVICES cfg) (BATCH_SIZE cfg) = Some p"
  shows "\<exists>r evs. aggregateDeviceData cfg net = Some (r, evs)
     \<and> devices r = concat (map (\<lambda>(i, b). batch_records (batch_outcome cfg net i b))
                              (enumerate 0 (batches p)))
     \<and> errors r = (let es = concat (map (\<lambda>(i, b). batch_failures i b (batch_outcome cfg net i b))
                                       (enumerate 0 (batches p)))
                   in if es = [] then None else Some es)
     \<and> errorsCount (summary r) =
         length (concat (map (\<lambda>(i, b). batch_failures i b (batch_outcome cfg net i b))
                             (enumerate 0 (batches p))))
     \<and> totalDevices (summary r) = plan_totalDevices p
     \<and> totalBatches (summary r) = plan_totalBatches p
     \<and> successfulFetches (summary r) = int (length (devices r))
     \<and> failedFetches (summary r) = plan_totalDevices p - int (length (devices r))
     \<and> map batchIndex evs = map fst (filter (\<lambda>(i, b). has_data (batch_outcome cfg net i b))
                                           (enumerate 0 (batches p)))"
  using assms by (simp add: aggregateDeviceData_def Let_def run_batches_fields)

lemma prepareBatches_returns:
  assumes "1 \<le> bsize"
  shows "\<exists>p. prepareBatches tdevices bsize = Some p \<and> plan_totalDevices p = tdevices
             \<and> batches p = chunks (nat bsize) (generateSerialNumbers tdevices)"
  by (simp add: prepareBatches_def Let_def createBatches_chunks [OF assms])

lemma aggregateDeviceData_Some:
  assumes "aggregateDeviceData cfg net = Some (r, evs)"
  shows "\<exists>p. prepareBatches (TOTAL_DEVICES cfg) (BATCH_SIZE cfg) = Some p
             \<and> plan_totalDevices p = TOTAL_DEVICES cfg"
  using assms
  by (auto simp: aggregateDeviceData_def prepareBatches_def Let_def split: option.splits)

subsection \<open>Runs on the small configuration\<close>

lemma prepareBatches_small:
  "prepareBatches 3 2 = Some \<lparr>serialNumbers = [''SN-000'', ''SN-001'', ''SN-002''],
      batches = [[''SN-000'', ''SN-001''], [''SN-002'']],
      plan_totalDevices = 3, plan_batchSize = 2, plan_totalBatches = 2\<rparr>"
proof -
  have sns: "generateSerialNumbers 3 = [''SN-000'', ''SN-001'', ''SN-002'']"
    by code_simp
  show ?thesis
    unfolding prepareBatches_def sns createBatches_def
    by (simp add: createBatches_loop.simps js_slice_def)
qed

lemma fetch_ok: "fetchDeviceData cfg answers_ok b 0 = ([Attempt 0], Inr (JObject None (Some (map online b))))"
  by (subst fetchDeviceData.simps)
     (simp add: answers_ok_def attempt_def try_block_def ok_def)

lemma fetch_no_data: "fetchDeviceData cfg answers_no_data b 0 = ([Attempt 0], Inr (JObject None None))"
  by (subst fetchDeviceData.simps)
     (simp add: answers_no_data_def attempt_def try_block_def ok_def)

lemma fetch_429:
  "snd (fetchDeviceData small_config answers_429 b 0) = Inl (Error ''Rate limit exceeded after 3 retries'')"
proof -
  have t3: "toString 3 = ''3''" by code_simp
  have "\<forall>k. \<exists>r. answers_429 b k = Resolves r \<and> status r = 429"
    by (simp add: answers_429_def)
  from fetchDeviceData_429_from [where server = answers_429 and snList = b, OF this, of 0 small_config] show ?thesis
    by (simp add: small_config_def t3)
qed

lemma aggregateDeviceData_small_mixed:
  "aggregateDeviceData small_config (\<lambda>i. if i = 0 then answers_ok else answers_429) =
     Some (\<lparr>summary = \<lparr>totalDevices = 3, successfulFetches = 2, failedFetches = 1,
                        onlineDevices = 2, offlineDevices = 0, totalBatches = 2, errorsCount = 1\<rparr>,
            devices = [online ''SN-000'', online ''SN-001''],
            errors = Some [\<lparr>batch = 2, batchSerialNumbers = [''SN-002''],
                           error = ''Rate limit exceeded after 3 retries''\<rparr>]\<rparr>,
           [\<lparr>batchIndex = 0, eventTotalBatches = 2,
             batchResults = [online ''SN-000'', online ''SN-001''],
             eventSuccessCount = 2, eventOnlineCount = 2, eventOfflineCount = 0\<rparr>])"
  unfolding aggregateDeviceData_def
  apply (simp add: small_config_def [THEN arg_cong, of BATCH_SIZE] small_config_def [THEN arg_cong, of TOTAL_DEVICES] prepareBatches_small)
  apply (simp add: process_batch_def fetch_ok fetch_429 Error_def online_def)
  done

subsection \<open>Claims about the report\<close>

text \<open>
  Claim C8. Whenever the batch size is positive the run ends with a report, and the
  summary of the report of every run that ends satisfies
  \<open>successfulFetches + failedFetches = totalDevices\<close>, where \<open>totalDevices\<close> is the
  configured device count and \<open>failedFetches\<close> is \<open>totalDevices\<close> minus the number of
  device records obtained. The records obtained are those of the
  batches whose fetch returned a \<open>data\<close> array, so a batch whose fetch failed
  contributes none and all its devices count as failed.
\<close>

theorem summary_accounts_for_every_device:
  "(1 \<le> BATCH_SIZE cfg \<longrightarrow> (\<exists>r evs. aggregateDeviceData cfg net = Some (r, evs)))
   \<and> (\<forall>r evs. aggregateDeviceData cfg net = Some (r, evs) \<longrightarrow>
         totalDevices (summary r) = TOTAL_DEVICES cfg
         \<and> successfulFetches (summary r) + failedFetches (summary r) = totalDevices (summary r)
         \<and> failedFetches (summary r) = totalDevices (summary r) - int (length (devices r))
         \<and> (\<exists>p. prepareBatches (TOTAL_DEVICES cfg) (BATCH_SIZE cfg) = Some p
               \<and> devices r = concat (map (\<lambda>(i, b). batch_records (batch_outcome cfg net i b))
                                        (enumerate 0 (batches p)))))"
proof (intro conjI allI impI)
  assume "1 \<le> BATCH_SIZE cfg"
  from prepareBatches_returns [OF this, of "TOTAL_DEVICES cfg"] obtain p where
    "prepareBatches (TOTAL_DEVICES cfg) (BATCH_SIZE cfg) = Some p" by blast
  from aggregateDeviceData_report [OF this, of net]
  show "\<exists>r evs. aggregateDeviceData cfg net = Some (r, evs)" by blast
next
  fix r evs
  assume run: "aggregateDeviceData cfg net = Some (r, evs)"
  from aggregateDeviceData_Some [OF run] obtain p where
    p: "prepareBatches (TOTAL_DEVICES cfg) (BATCH_SIZE cfg) = Some p"
       "plan_totalDevices p = TOTAL_DEVICES cfg" by blast
  from aggregateDeviceData_report [OF p(1), of net] run have
    r: "devices r = concat (map (\<lambda>(i, b). batch_records (batch_outcome cfg net i b))
                              (enumerate 0 (batches p)))"
       "totalDevices (summary r) = plan_totalDevices p"
       "successfulFetches (summary r) = int (length (devices r))"
       "failedFetches (summary r) = plan_totalDevices p - int (length (devices r))"
    by auto
  from r(2) p(2) show "totalDevices (summary r) = TOTAL_DEVICES cfg" by simp
  from r(2,3,4) show
    "successfulFetches (summary r) + failedFetches (summary r) = totalDevices (summary r)"
    by simp
  from r(2,4) show "failedFetches (summary r) = totalDevices (summary r) - int (length (devices r))"
    by simp
  from p(1) r(1) show "\<exists>p. prepareBatches (TOTAL_DEVICES cfg) (BATCH_SIZE cfg) = Some p
               \<and> devices r = concat (map (\<lambda>(i, b). batch_records (batch_outcome cfg net i b))
                                        (enumerate 0 (batches p)))"
    by blast
qed

theorem summary_accounts_for_every_device_witness:
  "1 \<le> BATCH_SIZE small_config
   \<and> (\<exists>r evs. aggregateDeviceData small_config (\<lambda>i. if i = 0 then answers_ok else answers_429)
                  = Some (r, evs)
        \<and> totalDevices (summary r) = 3 \<and> successfulFetches (summary r) = 2
        \<and> failedFetches (summary r) = 1
        \<and> successfulFetches (summary r) + failedFetches (summary r) = totalDevices (summary r))"
proof -
  let ?net = "\<lambda>i::nat. if i = 0 then answers_ok else answers_429"
  have b: "1 \<le> BATCH_SIZE small_config" by (simp add: small_config_def)
  from summary_accounts_for_every_device [of small_config ?net] b obtain r evs where
    r: "aggregateDeviceData small_config ?net = Some (r, evs)" by blast
  with summary_accounts_for_every_device [of small_config ?net] have
    s: "successfulFetches (summary r) + failedFetches (summary r) = totalDevices (summary r)"
    by blast
  from r have "totalDevices (summary r) = 3" "successfulFetches (summary r) = 2"
      "failedFetches (summary r) = 1"
    by (auto simp: aggregateDeviceData_small_mixed)
  with b r s show ?thesis by blast
qed

text \<open>
  Claim C7 (as the code has it). Whenever the batch size is positive the run ends with
  a report, and in the report of every run that ends every batch whose fetch threw an
  error is listed: the report has
  an errors list, and the list holds the entry with that batch's sequence number
  (index plus one), its device identifiers and the message of the error. The count of
  errors in the summary is the length of that list.
\<close>

theorem failed_batches_are_reported:
  "(1 \<le> BATCH_SIZE cfg \<longrightarrow> (\<exists>r evs. aggregateDeviceData cfg net = Some (r, evs)))
   \<and> (\<forall>r evs. aggregateDeviceData cfg net = Some (r, evs) \<longrightarrow>
        (\<exists>p. prepareBatches (TOTAL_DEVICES cfg) (BATCH_SIZE cfg) = Some p
          \<and> (\<forall>i < length (batches p). \<forall>e.
               batch_outcome cfg net i (batches p ! i) = Inl e \<longrightarrow>
               (\<exists>es. errors r = Some es
                  \<and> \<lparr>batch = i + 1, batchSerialNumbers = batches p ! i, error = message e\<rparr> \<in> set es)))
        \<and> errorsCount (summary r) = (case errors r of None \<Rightarrow> 0 | Some es \<Rightarrow> length es))"
proof (intro conjI allI impI)
  assume "1 \<le> BATCH_SIZE cfg"
  from prepareBatches_returns [OF this, of "TOTAL_DEVICES cfg"] obtain p where
    "prepareBatches (TOTAL_DEVICES cfg) (BATCH_SIZE cfg) = Some p" by blast
  from aggregateDeviceData_report [OF this, of net]
  show "\<exists>r evs. aggregateDeviceData cfg net = Some (r, evs)" by blast
next
  fix r evs
  assume run: "aggregateDeviceData cfg net = Some (r, evs)"
  from aggregateDeviceData_Some [OF run] obtain p where
    p: "prepareBatches (TOTAL_DEVICES cfg) (BATCH_SIZE cfg) = Some p" by blast
  let ?es = "concat (map (\<lambda>(i, b). batch_failures i b (batch_outcome cfg net i b))
                         (enumerate 0 (batches p)))"
  from aggregateDeviceData_report [OF p, of net] run have
    r: "errors r = (let es = ?es in if es = [] then None else Some es)"
       "errorsCount (summary r) = length ?es"
    by auto
  have listed: "\<exists>es. errors r = Some es
        \<and> \<lparr>batch = i + 1, batchSerialNumbers = batches p ! i, error = message e\<rparr> \<in> set es"
    if i: "i < length (batches p)" and e: "batch_outcome cfg net i (batches p ! i) = Inl e" for i e
  proof -
    have "(i, batches p ! i) \<in> set (enumerate 0 (batches p))"
      using i by (simp add: in_set_enumerate_eq)
    moreover have "\<lparr>batch = i + 1, batchSerialNumbers = batches p ! i, error = message e\<rparr>
        \<in> set (batch_failures i (batches p ! i) (batch_outcome cfg net i (batches p ! i)))"
      by (simp add: e)
    ultimately have mem: "\<lparr>batch = i + 1, batchSerialNumbers = batches p ! i, error = message e\<rparr> \<in> set ?es"
      by fastforce
    then have "?es \<noteq> []" by (metis empty_iff list.set(1))
    with r(1) have "errors r = Some ?es" by (simp add: Let_def)
    with mem show ?thesis by blast
  qed
  with p show "\<exists>p. prepareBatches (TOTAL_DEVICES cfg) (BATCH_SIZE cfg) = Some p
          \<and> (\<forall>i < length (batches p). \<forall>e.
               batch_outcome cfg net i (batches p ! i) = Inl e \<longrightarrow>
               (\<exists>es. errors r = Some es
                  \<and> \<lparr>batch = i + 1, batchSerialNumbers = batches p ! i, error = message e\<rparr> \<in> set es))"
    by blast
  show "errorsCount (summary r) = (case errors r of None \<Rightarrow> 0 | Some es \<Rightarrow> length es)"
    using r by (simp add: Let_def)
qed

theorem failed_batches_are_reported_witness:
  "1 \<le> BATCH_SIZE small_config
   \<and> (\<exists>r evs es. aggregateDeviceData small_config (\<lambda>i. if i = 0 then answers_ok else answers_429)
                     = Some (r, evs)
        \<and> errors r = Some es
        \<and> \<lparr>batch = 2, batchSerialNumbers = [''SN-002''],
            error = ''Rate limit exceeded after 3 retries''\<rparr> \<in> set es)"
proof -
  let ?net = "\<lambda>i::nat. if i = 0 then answers_ok else answers_429"
  have b: "1 \<le> BATCH_SIZE small_config" by (simp add: small_config_def)
  from failed_batches_are_reported [of small_config ?net] b obtain r evs where
    r: "aggregateDeviceData small_config ?net = Some (r, evs)" by blast
  with failed_batches_are_reported [of small_config ?net] obtain p where
    p: "prepareBatches (TOTAL_DEVICES small_config) (BATCH_SIZE small_config) = Some p"
    and listed: "\<forall>i < length (batches p). \<forall>e.
           batch_outcome small_config ?net i (batches p ! i) = Inl e \<longrightarrow>
           (\<exists>es. errors r = Some es
                 \<and> \<lparr>batch = i + 1, batchSerialNumbers = batches p ! i, error = message e\<rparr> \<in> set es)"
    by blast
  from p have bs: "batches p = [[''SN-000'', ''SN-001''], [''SN-002'']]"
    by (auto simp: small_config_def prepareBatches_small)
  have out: "batch_outcome small_config ?net 1 (batches p ! 1)
             = Inl (Error ''Rate limit exceeded after 3 retries'')"
    by (simp add: batch_outcome_def fetch_429)
  have "(1::nat) < length (batches p)" by (simp add: bs)
  with listed out have "\<exists>es. errors r = Some es
        \<and> \<lparr>batch = 1 + 1, batchSerialNumbers = batches p ! 1,
            error = message (Error ''Rate limit exceeded after 3 retries'')\<rparr> \<in> set es"
    by blast
  then obtain es where es: "errors r = Some es"
    "\<lparr>batch = 1 + 1, batchSerialNumbers = batches p ! 1,
      error = message (Error ''Rate limit exceeded after 3 retries'')\<rparr> \<in> set es"
    by blast
  have eq: "\<lparr>batch = 1 + 1, batchSerialNumbers = batches p ! 1,
              error = message (Error ''Rate limit exceeded after 3 retries'')\<rparr>
            = \<lparr>batch = 2, batchSerialNumbers = [''SN-002''],
               error = ''Rate limit exceeded after 3 retries''\<rparr>"
    by (simp add: bs Error_def)
  from es(2) have "\<lparr>batch = 2, batchSerialNumbers = [''SN-002''],
      error = ''Rate limit exceeded after 3 retries''\<rparr> \<in> set es"
    unfolding eq .
  with b r es(1) show ?thesis by blast
qed

text \<open>
  The claim as the specification states it fails: when every fetch returns a body
  without a \<open>data\<close> array, no batch contributes a device record, all three devices
  count as failed, and yet the report has no errors list at all.
\<close>

theorem unreported_batch_without_data:
  "aggregateDeviceData small_config (\<lambda>i. answers_no_data) =
     Some (\<lparr>summary = \<lparr>totalDevices = 3, successfulFetches = 0, failedFetches = 3,
                        onlineDevices = 0, offlineDevices = 0, totalBatches = 2, errorsCount = 0\<rparr>,
            devices = [], errors = None\<rparr>, [])"
  unfolding aggregateDeviceData_def
  apply (simp add: small_config_def [THEN arg_cong, of BATCH_SIZE] small_config_def [THEN arg_cong, of TOTAL_DEVICES] prepareBatches_small)
  apply (simp add: process_batch_def fetch_no_data)
  done


section \<open>Verification: ordering across the limiter and the aggregator\<close>

lemma enumerate_conv_map: "enumerate 0 xs = map (\<lambda>i. (i, xs ! i)) [0..<length xs]"
  by (rule nth_equalityI) (simp_all add: nth_enumerate_eq)


lemma fetch_ok_has_data: "has_data (batch_outcome cfg (\<lambda>i. answers_ok) i b)"
  by (simp add: batch_outcome_def fetch_ok)

text \<open>
  Claim C9. Tasks are executed in the order of their submission, with no reordering:
  along the executions begun the promise numbers grow, every executed task is the one
  submitted under its number, and as long as \<open>clear()\<close> is not called the tasks
  executed so far are exactly the first submitted ones, in their order. The aggregator
  submits batch \<open>i\<close> in the \<open>i\<close>-th pass of its loop and awaits it, and the progress
  events it delivers carry the indices of the batches that returned data, in
  increasing order.
\<close>

theorem execution_and_progress_follow_submission_order:
  fixes evs :: "('a, 'r) event list" and interval t0 :: int
  assumes "1 \<le> BATCH_SIZE cfg"
  shows "sorted_wrt (<) (map ident (begun (run evs (new_RateLimiter interval t0))))
     \<and> (\<forall>it \<in> set (begun (run evs (new_RateLimiter interval t0))).
           ident it < length (submissions evs) \<and> task it = submissions evs ! ident it)
     \<and> (Clear \<notin> set evs \<longrightarrow>
           map task (begun (run evs (new_RateLimiter interval t0)))
             = take (length (begun (run evs (new_RateLimiter interval t0)))) (submissions evs))
     \<and> (\<exists>r events p. aggregateDeviceData cfg net = Some (r, events)
           \<and> prepareBatches (TOTAL_DEVICES cfg) (BATCH_SIZE cfg) = Some p
           \<and> map batchIndex events =
               filter (\<lambda>i. has_data (batch_outcome cfg net i (batches p ! i))) [0..<length (batches p)]
           \<and> sorted_wrt (<) (map batchIndex events))"
proof -
  from prepareBatches_returns [OF assms, of "TOTAL_DEVICES cfg"] obtain p where
    p: "prepareBatches (TOTAL_DEVICES cfg) (BATCH_SIZE cfg) = Some p" by blast
  from aggregateDeviceData_report [OF p, of net] obtain r events where
    r: "aggregateDeviceData cfg net = Some (r, events)"
       "map batchIndex events = map fst (filter (\<lambda>(i, b). has_data (batch_outcome cfg net i b))
                                           (enumerate 0 (batches p)))"
    by blast
  have idx: "map batchIndex events =
      filter (\<lambda>i. has_data (batch_outcome cfg net i (batches p ! i))) [0..<length (batches p)]"
    unfolding r(2) enumerate_conv_map by (simp add: filter_map comp_def)
  have "sorted_wrt (<) (map batchIndex events)"
    unfolding idx by (rule sorted_wrt_filter) simp
  with r(1) p idx have agg: "\<exists>r events p. aggregateDeviceData cfg net = Some (r, events)
           \<and> prepareBatches (TOTAL_DEVICES cfg) (BATCH_SIZE cfg) = Some p
           \<and> map batchIndex events =
               filter (\<lambda>i. has_data (batch_outcome cfg net i (batches p ! i))) [0..<length (batches p)]
           \<and> sorted_wrt (<) (map batchIndex events)"
    by blast
  from begun_in_submission_order [of evs interval t0] agg show ?thesis by blast
qed

theorem execution_and_progress_follow_submission_order_witness:
  "1 \<le> BATCH_SIZE small_config
   \<and> submissions demo_events = [''A'', ''B'', ''C'']
   \<and> map task (begun (run demo_events demo_limiter)) = [''A'', ''B'']
   \<and> (\<exists>r events. aggregateDeviceData small_config (\<lambda>i. answers_ok) = Some (r, events)
         \<and> map batchIndex events = [0, 1])"
proof -
  have b: "1 \<le> BATCH_SIZE small_config" by (simp add: small_config_def)
  have subs: "submissions demo_events = [''A'', ''B'', ''C'']"
    by (simp add: submissions_def demo_events_def)
  have nc: "Clear \<notin> set demo_events" by (simp add: demo_events_def)
  have len: "length (begun (run demo_events demo_limiter)) = 2"
    by (simp add: begun_def demo_run)
  from execution_and_progress_follow_submission_order
         [OF b, of demo_events 1100 5000 "\<lambda>i. answers_ok"]
  have ord: "Clear \<notin> set demo_events \<longrightarrow>
           map task (begun (run demo_events demo_limiter))
             = take (length (begun (run demo_events demo_limiter))) (submissions demo_events)"
    and agg: "\<exists>r events p. aggregateDeviceData small_config (\<lambda>i. answers_ok) = Some (r, events)
           \<and> prepareBatches (TOTAL_DEVICES small_config) (BATCH_SIZE small_config) = Some p
           \<and> map batchIndex events =
               filter (\<lambda>i. has_data (batch_outcome small_config (\<lambda>i. answers_ok) i (batches p ! i)))
                 [0..<length (batches p)]"
    unfolding demo_limiter_def by blast+
  from ord nc have tasks: "map task (begun (run demo_events demo_limiter)) = [''A'', ''B'']"
    by (simp add: len subs)
  from agg obtain r events p where
    r: "aggregateDeviceData small_config (\<lambda>i. answers_ok) = Some (r, events)"
    and p: "prepareBatches (TOTAL_DEVICES small_config) (BATCH_SIZE small_config) = Some p"
    and idx: "map batchIndex events =
               filter (\<lambda>i. has_data (batch_outcome small_config (\<lambda>i. answers_ok) i (batches p ! i)))
                 [0..<length (batches p)]"
    by blast
  from p have bs: "length (batches p) = 2"
    by (auto simp: small_config_def prepareBatches_small)
  have "[0..<2] = [0, Suc 0]" by (simp add: upt_rec)
  with idx have "map batchIndex events = [0, 1]"
    by (simp add: bs fetch_ok_has_data)
  with r have "\<exists>r events. aggregateDeviceData small_config (\<lambda>i. answers_ok) = Some (r, events)
         \<and> map batchIndex events = [0, 1]"
    by (intro exI conjI)
  with b subs tasks show ?thesis by (intro conjI)
qed

end
